theory Spec2Isabelle
  imports Complex_Main "HOL-Library.Sublist" "HOL-Library.Multiset"
begin

section \<open>Trending-hashtag tracker: \<^verbatim>\<open>src/visualize_hashtags.py\<close>\<close>

text \<open>
  The program reads one worksheet into a pandas DataFrame, resolves the columns
  \<^verbatim>\<open>Hashtag\<close> and \<^verbatim>\<open>Count\<close> whatever their letter case, cleans both, drops the rows
  with an empty label, sorts by count, and writes a CSV file, two charts and a report.

  Text is a list of bytes (UTF-8). The cleaned counts are 64-bit integers (\<^verbatim>\<open>int64\<close>):
  the cast \<^verbatim>\<open>astype(int)\<close> is modelled with its range, and with the exception it raises
  on an infinity. A \<^verbatim>\<open>float64\<close> is its value, a rational number or one of the two
  infinities; an integer that enters a \<^verbatim>\<open>float64\<close> column is rounded to 53 significant
  bits.
\<close>

subsection \<open>Data model\<close>

text \<open>A \<^verbatim>\<open>float64\<close> other than NaN: a finite value, or an infinity.\<close>

datatype float64 = Num rat | PosInf | NegInf

text \<open>
  What a DataFrame cell holds after \<^verbatim>\<open>read_excel\<close>: a text, an integer (one that a
  numeric column can hold, so between \<open>- 2 ^ 63\<close> and \<open>2 ^ 64 - 1\<close>), a floating point
  number, or the missing value NaN. Dates and truth values are left out.
\<close>

datatype cell = SVal string | IVal int | FVal float64 | NaN

text \<open>A column label is a text, or something else (a numeric header cell).\<close>

datatype colname = Name string | NonStr int

text \<open>The raw DataFrame: its columns in order, each with its cells (in a DataFrame
  all columns have the same number of cells).\<close>

type_synonym dataframe = "(colname \<times> cell list) list"

text \<open>
  A row of the cleaned DataFrame, whose columns are named \<^verbatim>\<open>Hashtag\<close> and \<^verbatim>\<open>Count\<close>;
  \<open>idx\<close> is the row's index label.
\<close>

record row =
  idx :: nat
  Hashtag :: string
  Count :: int

type_synonym table = "row list"

text \<open>
  The frame between the cleaning of the two columns and the filter: index label,
  cleaned label and cleaned count of each row. The label is \<open>None\<close> where the column
  holds a missing value instead of a text.
\<close>

type_synonym frame = "(nat \<times> string option \<times> int) list"

text \<open>
  The exceptions of the run. \<open>ValueError cs\<close> is the one \<^verbatim>\<open>find_columns\<close> raises: its
  message is a fixed sentence followed by \<^verbatim>\<open>list(df.columns)\<close>, kept here as the list
  itself. \<open>LengthMismatch\<close> is the \<^verbatim>\<open>ValueError\<close> of assigning two column names to a
  frame that has not two columns. \<open>AttributeError\<close> is \<^verbatim>\<open>c.lower()\<close> on a label that is
  not a text. \<open>IntCastingNaNError\<close> is what \<^verbatim>\<open>astype(int)\<close> raises on a column that holds
  an infinity. \<open>LibraryError\<close> is whatever else a library call raises.
\<close>

datatype error =
    AttributeError
  | ValueError "colname list"
  | LengthMismatch
  | IntCastingNaNError
  | FileExistsError
  | LibraryError string

datatype sheet = SheetName string | SheetIndex nat

text \<open>What numeric parsing makes of one value: an integer or a \<^verbatim>\<open>float64\<close>.\<close>

datatype item = PInt int | PFloat float64

text \<open>
  The library calls whose results the program takes as they come; they are parameters
  of the model.

  \<^item> \<open>to_numeric_text\<close>: what \<^verbatim>\<open>pd.to_numeric\<close> reads a text as, an integer, a float
    (possibly an infinity), or \<open>None\<close> when the text is not a number;
  \<^item> \<open>float_str\<close>: the text of a float;
  \<^item> \<open>nan_str\<close>: what \<^verbatim>\<open>astype(str)\<close> makes of a missing value, the text \<^verbatim>\<open>nan\<close> up to
    pandas 2 (\<open>Some ''nan''\<close>), and still a missing value from pandas 3 on (\<open>None\<close>);
  \<^item> \<open>argsort\<close>: NumPy's \<^verbatim>\<open>ndarray.argsort(kind='quicksort')\<close> on an \<^verbatim>\<open>int64\<close> array, the
    positions of the keys in ascending order of key; which of two equal keys comes
    first depends on the algorithm the NumPy build selects;
  \<^item> the loader, the two serialisers and the chart renderers (pandas, tabulate and
    matplotlib).
\<close>

record library =
  to_numeric_text :: "string \<Rightarrow> item option"
  float_str :: "float64 \<Rightarrow> string"
  nan_str :: "string option"
  argsort :: "int list \<Rightarrow> nat list"
  read_excel :: "string \<Rightarrow> sheet \<Rightarrow> error + dataframe"
  to_csv :: "table \<Rightarrow> string"
  to_markdown :: "table \<Rightarrow> string"
  savefig_bar :: "table \<Rightarrow> error + string"
  savefig_pie :: "table \<Rightarrow> error + string"

text \<open>The range of \<^verbatim>\<open>int64\<close>.\<close>

definition int64 :: "int \<Rightarrow> bool" where
  "int64 n = (- (2 ^ 63) \<le> n \<and> n < 2 ^ 63)"

text \<open>What \<^verbatim>\<open>argsort\<close> promises on an \<^verbatim>\<open>int64\<close> array: a permutation of the positions that
  puts the keys in ascending order.\<close>

definition argsort_ok :: "(int list \<Rightarrow> nat list) \<Rightarrow> bool" where
  "argsort_ok ars =
     (\<forall>ks. list_all int64 ks \<longrightarrow>
        mset (ars ks) = mset [0..<length ks] \<and> sorted (map (\<lambda>p. ks ! p) (ars ks)))"

text \<open>
  What it means for a function on tables to sort by count, largest first: the same
  rows, in descending order of count.
\<close>

definition sorts_desc :: "(table \<Rightarrow> table) \<Rightarrow> bool" where
  "sorts_desc srt =
     (\<forall>xs. mset (srt xs) = mset xs \<and> sorted_wrt (\<lambda>a b. Count b \<le> Count a) (srt xs))"


subsection \<open>Text primitives\<close>

text \<open>\<^verbatim>\<open>str.lower\<close>, on the ASCII letters (no other character lowers to an ASCII letter
  of \<^verbatim>\<open>hashtag\<close> or \<^verbatim>\<open>count\<close>).\<close>

definition lower_char :: "char \<Rightarrow> char" where
  "lower_char c =
     (case map_of (zip ''ABCDEFGHIJKLMNOPQRSTUVWXYZ'' ''abcdefghijklmnopqrstuvwxyz'') c of
        None \<Rightarrow> c
      | Some d \<Rightarrow> d)"

definition lower :: "string \<Rightarrow> string" where
  "lower s = map lower_char s"

text \<open>
  The characters \<^verbatim>\<open>str.strip()\<close> removes, as UTF-8 byte sequences: U+0009 to U+000D,
  U+001C to U+0020, U+0085, U+00A0, U+1680, U+2000 to U+200A, U+2028, U+2029, U+202F,
  U+205F and U+3000.
\<close>

definition whitespace :: "string list" where
  "whitespace =
     map (\<lambda>c. [c]) [CHR 0x09, CHR 0x0A, CHR 0x0B, CHR 0x0C, CHR 0x0D,
                     CHR 0x1C, CHR 0x1D, CHR 0x1E, CHR 0x1F, CHR 0x20]
     @ [[CHR 0xC2, CHR 0x85], [CHR 0xC2, CHR 0xA0], [CHR 0xE1, CHR 0x9A, CHR 0x80]]
     @ map (\<lambda>c. [CHR 0xE2, CHR 0x80, c])
         [CHR 0x80, CHR 0x81, CHR 0x82, CHR 0x83, CHR 0x84, CHR 0x85, CHR 0x86,
          CHR 0x87, CHR 0x88, CHR 0x89, CHR 0x8A, CHR 0xA8, CHR 0xA9, CHR 0xAF]
     @ [[CHR 0xE2, CHR 0x81, CHR 0x9F], [CHR 0xE3, CHR 0x80, CHR 0x80]]"

text \<open>Removing the leading characters that are in \<open>ws\<close>, one at a time.\<close>

function lstrip_with :: "string list \<Rightarrow> string \<Rightarrow> string" where
  "lstrip_with ws s =
     (case find (\<lambda>w. w \<noteq> [] \<and> prefix w s) ws of
        None \<Rightarrow> s
      | Some w \<Rightarrow> lstrip_with ws (drop (length w) s))"
  by pat_completeness auto
termination
proof (relation "measure (\<lambda>(ws, s). length s)")
  show "wf (measure (\<lambda>(ws, s). length s))" by simp
next
  fix ws :: "string list" and s w :: string
  assume "find (\<lambda>w. w \<noteq> [] \<and> prefix w s) ws = Some w"
  then have "w \<noteq> []" and "prefix w s"
    by (auto simp: find_Some_iff)
  then show "((ws, drop (length w) s), (ws, s)) \<in> measure (\<lambda>(ws, s). length s)"
    by (auto simp: prefix_def)
qed

declare lstrip_with.simps [simp del]

definition lstrip :: "string \<Rightarrow> string" where
  "lstrip s = lstrip_with whitespace s"

definition rstrip :: "string \<Rightarrow> string" where
  "rstrip s = rev (lstrip_with (map rev whitespace) (rev s))"

definition strip :: "string \<Rightarrow> string" where
  "strip s = rstrip (lstrip s)"

text \<open>\<^verbatim>\<open>str(n)\<close> of an integer: its decimal digits, with a minus sign when negative.\<close>

fun digits :: "nat \<Rightarrow> string" where
  "digits n =
     (if n < 10 then [''0123456789'' ! n]
      else digits (n div 10) @ [''0123456789'' ! (n mod 10)])"

definition str_int :: "int \<Rightarrow> string" where
  "str_int n = (if n < 0 then ''-'' @ digits (nat (- n)) else digits (nat n))"

subsection \<open>\<^verbatim>\<open>find_columns\<close>\<close>

text \<open>
  \<^verbatim>\<open>cols_lower = {c.lower(): c for c in df.columns}\<close>: the labels are visited in order,
  a later label replaces an earlier one with the same lowered text, and a label that is
  not a text has no \<^verbatim>\<open>lower\<close>.
\<close>

fun cols_lower :: "colname list \<Rightarrow> (string \<rightharpoonup> string) \<Rightarrow> error + (string \<rightharpoonup> string)" where
  "cols_lower [] m = Inr m"
| "cols_lower (Name c # cs) m = cols_lower cs (m(lower c \<mapsto> c))"
| "cols_lower (NonStr n # cs) m = Inl AttributeError"

text \<open>Python's \<^verbatim>\<open>not x\<close> for the result of \<^verbatim>\<open>dict.get\<close>: true of \<^verbatim>\<open>None\<close> and of the
  empty text.\<close>

definition falsy :: "string option \<Rightarrow> bool" where
  "falsy x = (case x of None \<Rightarrow> True | Some s \<Rightarrow> s = [])"

definition find_columns :: "dataframe \<Rightarrow> error + (string \<times> string)" where
  "find_columns df =
     (case cols_lower (map fst df) Map.empty of
        Inl e \<Rightarrow> Inl e
      | Inr m \<Rightarrow>
          (let hashtag_col = m ''hashtag''; count_col = m ''count'' in
           if falsy hashtag_col \<or> falsy count_col then Inl (ValueError (map fst df))
           else Inr (the hashtag_col, the count_col)))"


subsection \<open>Cleaning\<close>

text \<open>\<^verbatim>\<open>df[[hashtag_col, count_col]]\<close> takes every column with either label, those of
  the first label first; \<^verbatim>\<open>df.columns = ["Hashtag", "Count"]\<close> needs exactly two.\<close>

definition getcols :: "dataframe \<Rightarrow> string \<Rightarrow> cell list list" where
  "getcols df c = map snd (filter (\<lambda>kv. fst kv = Name c) df)"

definition select2 :: "dataframe \<Rightarrow> string \<Rightarrow> string \<Rightarrow> error + (cell list \<times> cell list)" where
  "select2 df hashtag_col count_col =
     (case getcols df hashtag_col @ getcols df count_col of
        [hs, cs] \<Rightarrow> Inr (hs, cs)
      | _ \<Rightarrow> Inl LengthMismatch)"

text \<open>
  The dtype of a column as the loader infers it: \<^verbatim>\<open>object\<close> when it holds a text (or
  nothing at all), \<^verbatim>\<open>int64\<close> when it holds integers only, \<^verbatim>\<open>float64\<close> otherwise (numbers
  and missing values).
\<close>

datatype dtype = Object | Int64 | Float64

fun is_text :: "cell \<Rightarrow> bool" where
  "is_text (SVal s) = True"
| "is_text c = False"

fun is_integer :: "cell \<Rightarrow> bool" where
  "is_integer (IVal n) = True"
| "is_integer c = False"

definition dtype_of :: "cell list \<Rightarrow> dtype" where
  "dtype_of cs =
     (if cs = [] \<or> list_ex is_text cs then Object
      else if list_all is_integer cs then Int64
      else Float64)"

text \<open>
  The \<^verbatim>\<open>float64\<close> nearest to an integer (ties to the even significand): \<open>expo53 n\<close> is
  the number of low bits of \<open>n \<ge> 0\<close> that do not fit in 53 bits. Integers of magnitude
  \<open>2 ^ 1024\<close> and more, which have no \<^verbatim>\<open>float64\<close>, are not covered.
\<close>

function expo53 :: "int \<Rightarrow> nat" where
  "expo53 n = (if n < 2 ^ 53 then 0 else Suc (expo53 (n div 2)))"
  by pat_completeness auto
termination
  by (relation "measure nat") auto

declare expo53.simps [simp del]

definition round53 :: "int \<Rightarrow> int" where
  "round53 n =
     (let e = expo53 n; m = n div 2 ^ e; r = n mod 2 ^ e in
      if 2 ^ e < 2 * r \<or> (2 * r = 2 ^ e \<and> odd m) then (m + 1) * 2 ^ e else m * 2 ^ e)"

definition float64_of_int :: "int \<Rightarrow> float64" where
  "float64_of_int n = Num (of_int (sgn n * round53 \<bar>n\<bar>))"

text \<open>
  \<^verbatim>\<open>.astype(str)\<close> on one cell of a column of dtype \<open>d\<close>. An integer in a \<^verbatim>\<open>float64\<close>
  column is a float. The missing value becomes what the pandas version makes of it.
\<close>

fun astype_str :: "library \<Rightarrow> dtype \<Rightarrow> cell \<Rightarrow> string option" where
  "astype_str L d (SVal s) = Some s"
| "astype_str L d (IVal n) =
     (if d = Float64 then Some (float_str L (float64_of_int n)) else Some (str_int n))"
| "astype_str L d (FVal f) = Some (float_str L f)"
| "astype_str L d NaN = nan_str L"

text \<open>\<^verbatim>\<open>.astype(str).str.strip()\<close>: a missing value stays missing.\<close>

definition clean_hashtag :: "library \<Rightarrow> dtype \<Rightarrow> cell \<Rightarrow> string option" where
  "clean_hashtag L d c = map_option strip (astype_str L d c)"

text \<open>\<^verbatim>\<open>pd.to_numeric(..., errors="coerce")\<close> on one cell: \<open>None\<close> is NaN.\<close>

fun to_numeric :: "library \<Rightarrow> cell \<Rightarrow> item option" where
  "to_numeric L (SVal s) = to_numeric_text L s"
| "to_numeric L (IVal n) = Some (PInt n)"
| "to_numeric L (FVal f) = Some (PFloat f)"
| "to_numeric L NaN = None"


text \<open>
  The column \<^verbatim>\<open>pd.to_numeric\<close> returns: an integer column when every value is an
  integer, else a \<^verbatim>\<open>float64\<close> column, in which the integers are rounded to floats and
  \<open>None\<close> is NaN.
\<close>

datatype numcol = IntCol "int list" | FloatCol "float64 option list"

fun the_int :: "item option \<Rightarrow> int option" where
  "the_int (Some (PInt n)) = Some n"
| "the_int x = None"

fun promote :: "item option \<Rightarrow> float64 option" where
  "promote None = None"
| "promote (Some (PInt n)) = Some (float64_of_int n)"
| "promote (Some (PFloat f)) = Some f"

definition to_numeric_col :: "library \<Rightarrow> cell list \<Rightarrow> numcol" where
  "to_numeric_col L cs =
     (let items = map (to_numeric L) cs in
      if list_all (\<lambda>x. the_int x \<noteq> None) items then IntCol (List.map_filter the_int items)
      else FloatCol (map promote items))"

text \<open>\<^verbatim>\<open>.fillna(d)\<close> on one value of a \<^verbatim>\<open>float64\<close> column.\<close>

definition fillna :: "float64 \<Rightarrow> float64 option \<Rightarrow> float64" where
  "fillna d x = (case x of None \<Rightarrow> d | Some f \<Rightarrow> f)"

text \<open>
  \<^verbatim>\<open>.astype(int)\<close> is a cast to \<^verbatim>\<open>int64\<close>. On a finite float the fraction is cut off,
  towards zero, and a result outside the 64-bit range is stored as \<open>- 2 ^ 63\<close> (the
  conversion of x86-64). On a column with an infinity the cast raises. On an integer
  column it keeps the low 64 bits, which changes an unsigned value from \<open>2 ^ 63\<close> on.
\<close>

definition astype_int :: "rat \<Rightarrow> int" where
  "astype_int q =
     (let n = (if 0 \<le> q then \<lfloor>q\<rfloor> else \<lceil>q\<rceil>) in
      if - (2 ^ 63) \<le> n \<and> n < 2 ^ 63 then n else - (2 ^ 63))"

definition wrap64 :: "int \<Rightarrow> int" where
  "wrap64 n = (n + 2 ^ 63) mod 2 ^ 64 - 2 ^ 63"

fun cast_float :: "float64 \<Rightarrow> int option" where
  "cast_float (Num q) = Some (astype_int q)"
| "cast_float PosInf = None"
| "cast_float NegInf = None"

definition astype_int_col :: "float64 list \<Rightarrow> error + int list" where
  "astype_int_col fs =
     (if list_all (\<lambda>f. cast_float f \<noteq> None) fs then Inr (List.map_filter cast_float fs)
      else Inl IntCastingNaNError)"

text \<open>\<^verbatim>\<open>pd.to_numeric(df["Count"], errors="coerce").fillna(0).astype(int)\<close>\<close>

definition clean_counts :: "library \<Rightarrow> cell list \<Rightarrow> error + int list" where
  "clean_counts L cs =
     (case to_numeric_col L cs of
        IntCol ns \<Rightarrow> Inr (map wrap64 ns)
      | FloatCol fs \<Rightarrow> astype_int_col (map (fillna (Num 0)) fs))"

text \<open>The two cleaned columns side by side, with the default index 0, 1, 2, ...\<close>

definition cleaned :: "library \<Rightarrow> cell list \<Rightarrow> cell list \<Rightarrow> error + frame" where
  "cleaned L hs cs =
     (case clean_counts L cs of
        Inl e \<Rightarrow> Inl e
      | Inr counts \<Rightarrow>
          Inr (zip [0..<length hs] (zip (map (clean_hashtag L (dtype_of hs)) hs) counts)))"

text \<open>\<^verbatim>\<open>df[df["Hashtag"].str.len() > 0]\<close>: the length of a missing value is NaN, and
  the comparison is false for it.\<close>

fun keep_row :: "nat \<times> string option \<times> int \<Rightarrow> row option" where
  "keep_row (i, None, c) = None"
| "keep_row (i, Some h, c) =
     (if length h > 0 then Some \<lparr>idx = i, Hashtag = h, Count = c\<rparr> else None)"

definition drop_empty :: "frame \<Rightarrow> table" where
  "drop_empty fr = List.map_filter keep_row fr"

text \<open>
  \<^verbatim>\<open>sort_values("Count", ascending=False)\<close> with the default \<^verbatim>\<open>kind='quicksort'\<close>. pandas
  (\<^verbatim>\<open>nargsort\<close>) reverses the keys and their positions, sorts the reversed keys in
  ascending order with \<^verbatim>\<open>argsort\<close>, and reverses the result; the rows are then taken
  in that order.
\<close>

definition nargsort_desc :: "library \<Rightarrow> int list \<Rightarrow> nat list" where
  "nargsort_desc L items =
     (let idx = [0..<length items];
          non_nans = rev items;
          non_nan_idx = rev idx;
          indexer = map (\<lambda>p. non_nan_idx ! p) (argsort L non_nans)
      in rev indexer)"

definition sort_values_desc :: "library \<Rightarrow> table \<Rightarrow> table" where
  "sort_values_desc L t = map (\<lambda>i. t ! i) (nargsort_desc L (map Count t))"

text \<open>\<^verbatim>\<open>reset_index(drop=True)\<close>\<close>

definition reset_index :: "table \<Rightarrow> table" where
  "reset_index t = map (\<lambda>(i, r). r\<lparr>idx := i\<rparr>) (zip [0..<length t] t)"

text \<open>Steps 2 and 3 of \<^verbatim>\<open>main\<close>, up to the sort and after it.\<close>

definition filtered :: "library \<Rightarrow> dataframe \<Rightarrow> error + table" where
  "filtered L df =
     (case find_columns df of
        Inl e \<Rightarrow> Inl e
      | Inr (hashtag_col, count_col) \<Rightarrow>
          (case select2 df hashtag_col count_col of
             Inl e \<Rightarrow> Inl e
           | Inr (hs, cs) \<Rightarrow>
               (case cleaned L hs cs of
                  Inl e \<Rightarrow> Inl e
                | Inr fr \<Rightarrow> Inr (drop_empty fr))))"

definition normalize :: "library \<Rightarrow> dataframe \<Rightarrow> error + table" where
  "normalize L df =
     (case filtered L df of
        Inl e \<Rightarrow> Inl e
      | Inr t \<Rightarrow> Inr (reset_index (sort_values_desc L t)))"

text \<open>The cell values of a table, without the index: what the outputs show.\<close>

definition values_of :: "table \<Rightarrow> (string \<times> int) list" where
  "values_of t = map (\<lambda>r. (Hashtag r, Count r)) t"

subsection \<open>Files\<close>

text \<open>
  The part of the file system the run touches: the directories made and the content of
  each file, by path (POSIX paths). Writing is assumed to succeed; \<^verbatim>\<open>os.makedirs\<close> with
  \<^verbatim>\<open>exist_ok=True\<close> fails when the path is empty or is a file. The parents that
  \<^verbatim>\<open>makedirs\<close> creates on the way are not tracked.
\<close>

record filesystem =
  dirs :: "string set"
  files :: "string \<rightharpoonup> string"

definition makedirs :: "string \<Rightarrow> filesystem \<Rightarrow> error + filesystem" where
  "makedirs p fs =
     (if p = [] then Inl (LibraryError ''FileNotFoundError'')
      else if p \<in> dom (files fs) then Inl FileExistsError
      else Inr (fs\<lparr>dirs := insert p (dirs fs)\<rparr>))"

definition write_file :: "string \<Rightarrow> string \<Rightarrow> filesystem \<Rightarrow> filesystem" where
  "write_file p content fs = fs\<lparr>files := (files fs)(p \<mapsto> content)\<rparr>"

text \<open>\<^verbatim>\<open>os.path.join(a, b)\<close> for a relative \<open>b\<close>.\<close>

definition path_join :: "string \<Rightarrow> string \<Rightarrow> string" where
  "path_join a b = (if a = [] \<or> last a = CHR ''/'' then a @ b else a @ ''/'' @ b)"

subsection \<open>The report\<close>

definition nl :: string where
  "nl = [CHR 0x0A]"

text \<open>The heading has an en dash (U+2013), three bytes in UTF-8.\<close>

definition title_line :: string where
  "title_line =
     ''# Trending Hashtags '' @ [CHR 0xE2, CHR 0x80, CHR 0x93] @ '' Auto Report'' @ nl @ nl"

definition preview_heading :: string where
  "preview_heading = ''## Top 10 (preview)'' @ nl @ nl"

definition charts_section :: string where
  "charts_section =
     nl @ nl @ ''## Charts'' @ nl @ nl
     @ ''![Bar Chart](./top_hashtags_bar.png)'' @ nl @ nl
     @ ''![Pie Chart](./top_hashtags_pie.png)'' @ nl"

text \<open>\<^verbatim>\<open>df.head(n)\<close>\<close>

definition head :: "nat \<Rightarrow> table \<Rightarrow> table" where
  "head n t = take n t"

definition report :: "library \<Rightarrow> table \<Rightarrow> string" where
  "report L t = title_line @ preview_heading @ to_markdown L (head 10 t) @ charts_section"

subsection \<open>\<^verbatim>\<open>main\<close>\<close>

text \<open>\<^verbatim>\<open>sheet_name if sheet_name else 0\<close>: no name and the empty name give the first sheet.\<close>

definition sheet_of :: "string option \<Rightarrow> sheet" where
  "sheet_of sheet_name =
     (case sheet_name of
        None \<Rightarrow> SheetIndex 0
      | Some s \<Rightarrow> if s = [] then SheetIndex 0 else SheetName s)"

text \<open>
  The run, from the state of the files before it to the state after it. An exception
  ends it where it is raised, and what has been written stays. The lines printed at the
  end are left out.
\<close>

definition main :: "library \<Rightarrow> string \<Rightarrow> string option \<Rightarrow> string \<Rightarrow> filesystem
    \<Rightarrow> (error + unit) \<times> filesystem" where
  "main L input_path sheet_name outdir fs =
     (case makedirs outdir fs of
        Inl e \<Rightarrow> (Inl e, fs)
      | Inr fs1 \<Rightarrow>
     (case read_excel L input_path (sheet_of sheet_name) of
        Inl e \<Rightarrow> (Inl e, fs1)
      | Inr df0 \<Rightarrow>
     (case normalize L df0 of
        Inl e \<Rightarrow> (Inl e, fs1)
      | Inr df \<Rightarrow>
     (let cleaned_csv = path_join outdir ''top_hashtags_cleaned.csv'';
          fs2 = write_file cleaned_csv (to_csv L df) fs1
      in
     (case savefig_bar L df of
        Inl e \<Rightarrow> (Inl e, fs2)
      | Inr bar \<Rightarrow>
     (let bar_path = path_join outdir ''top_hashtags_bar.png'';
          fs3 = write_file bar_path bar fs2
      in
     (case savefig_pie L df of
        Inl e \<Rightarrow> (Inl e, fs3)
      | Inr pie \<Rightarrow>
     (let pie_path = path_join outdir ''top_hashtags_pie.png'';
          fs4 = write_file pie_path pie fs3;
          md_path = path_join outdir ''REPORT.md'';
          fs5 = write_file md_path (report L df) fs4
      in (Inr (), fs5)))))))))"


subsection \<open>A library instance and sample sheets\<close>

text \<open>
  One instance of the library interface, for closed instances of the theorems: a parser
  of decimal integers and of the texts \<^verbatim>\<open>inf\<close> and \<^verbatim>\<open>-inf\<close>, the text of a float that is
  a whole number, pandas 2, and plain serialisers.
\<close>

definition digit_val :: "char \<Rightarrow> nat option" where
  "digit_val c = map_of (zip ''0123456789'' [0..<10]) c"

fun parse_nat :: "string \<Rightarrow> nat \<Rightarrow> nat option" where
  "parse_nat [] n = Some n"
| "parse_nat (c # cs) n =
     (case digit_val c of None \<Rightarrow> None | Some d \<Rightarrow> parse_nat cs (10 * n + d))"

definition plain_decimal :: "string \<Rightarrow> item option" where
  "plain_decimal s =
     (if s = ''inf'' then Some (PFloat PosInf)
      else if s = ''-inf'' then Some (PFloat NegInf)
      else if s = [] \<or> s = ''-'' then None
      else if hd s = CHR ''-'' then map_option (\<lambda>n. PInt (- int n)) (parse_nat (tl s) 0)
      else map_option (\<lambda>n. PInt (int n)) (parse_nat s 0))"

fun whole_str :: "float64 \<Rightarrow> string" where
  "whole_str (Num q) = str_int \<lfloor>q\<rfloor> @ ''.0''"
| "whole_str PosInf = ''inf''"
| "whole_str NegInf = ''-inf''"

text \<open>
  NumPy's quicksort sorts an array of at most 16 elements by insertion when the build
  does not dispatch to vector instructions: equal keys stay in the order of their
  positions.
\<close>

definition insertion_argsort :: "int list \<Rightarrow> nat list" where
  "insertion_argsort ks = sort_key (\<lambda>p. ks ! p) [0..<length ks]"

text \<open>
  With vector dispatch (AVX2, AVX-512) NumPy sorts an \<^verbatim>\<open>int64\<close> array of up to four
  elements in one register by a bitonic network on pairs of key and position. A lane
  beyond the array holds the largest key. \<open>cmp_merge\<close> on two lanes puts the smaller key
  in the lower lane, and a position moves only when its key does.
\<close>

type_synonym lane = "int \<times> nat"

definition cmp_merge :: "lane \<Rightarrow> lane \<Rightarrow> lane \<times> lane" where
  "cmp_merge a b = (if fst b < fst a then (b, a) else (a, b))"

definition bitonic4 :: "lane \<Rightarrow> lane \<Rightarrow> lane \<Rightarrow> lane \<Rightarrow> lane list" where
  "bitonic4 l0 l1 l2 l3 =
     (let (a0, a1) = cmp_merge l0 l1; (a2, a3) = cmp_merge l2 l3;
          (b0, b3) = cmp_merge a0 a3; (b1, b2) = cmp_merge a1 a2;
          (c0, c1) = cmp_merge b0 b1; (c2, c3) = cmp_merge b2 b3
      in [c0, c1, c2, c3])"

definition argsort4 :: "int list \<Rightarrow> nat list" where
  "argsort4 ks =
     (let lane = (\<lambda>p. if p < length ks then (ks ! p, p) else (2 ^ 63 - 1, 0)) in
      map snd (take (length ks) (bitonic4 (lane 0) (lane 1) (lane 2) (lane 3))))"

text \<open>The vector sort on up to four keys; on more keys it works with several
  registers, which this instance does not follow: it sorts them by insertion.\<close>

definition simd_argsort :: "int list \<Rightarrow> nat list" where
  "simd_argsort ks = (if length ks \<le> 4 then argsort4 ks else insertion_argsort ks)"

definition csv_plain :: "table \<Rightarrow> string" where
  "csv_plain t =
     ''Hashtag,Count'' @ nl @ concat (map (\<lambda>r. Hashtag r @ '','' @ str_int (Count r) @ nl) t)"

definition md_plain :: "table \<Rightarrow> string" where
  "md_plain t =
     ''| Hashtag | Count |'' @ nl @ ''|:--|--:|''
     @ concat (map (\<lambda>r. nl @ ''| '' @ Hashtag r @ '' | '' @ str_int (Count r) @ '' |'') t)"

definition sample_sheet :: dataframe where
  "sample_sheet =
     [(Name ''Hashtag'', [SVal ''#ai'', SVal ''#ai '', SVal '' '', SVal ''#ml'']),
      (Name ''Count'', [IVal 120, IVal 95, IVal 50, SVal ''bad''])]"

definition sample_lib :: library where
  "sample_lib =
     \<lparr>to_numeric_text = plain_decimal,
      float_str = whole_str,
      nan_str = Some ''nan'',
      argsort = insertion_argsort,
      read_excel = (\<lambda>p s. if p = ''data/top_hashtags.xlsx'' then Inr sample_sheet
                           else Inl (LibraryError ''FileNotFoundError'')),
      to_csv = csv_plain,
      to_markdown = md_plain,
      savefig_bar = (\<lambda>t. Inr ''bar''),
      savefig_pie = (\<lambda>t. if list_all (\<lambda>r. 0 \<le> Count r) t then Inr ''pie''
                          else Inl (LibraryError ''ValueError''))\<rparr>"

definition empty_fs :: filesystem where
  "empty_fs = \<lparr>dirs = {}, files = Map.empty\<rparr>"

text \<open>The same library on a NumPy build with vector dispatch, and with pandas 3.\<close>

definition simd_lib :: library where
  "simd_lib = sample_lib\<lparr>argsort := simd_argsort\<rparr>"

definition pandas3_lib :: library where
  "pandas3_lib = sample_lib\<lparr>nan_str := None\<rparr>"

text \<open>Four rows with two pairs of equal counts.\<close>

definition ties_sheet :: dataframe where
  "ties_sheet =
     [(Name ''Hashtag'', [SVal ''#a'', SVal ''#b'', SVal ''#c'', SVal ''#d'']),
      (Name ''Count'', [IVal 1, IVal 1, IVal 2, IVal 2])]"

definition negative_sheet :: dataframe where
  "negative_sheet =
     [(Name ''Hashtag'', [SVal ''#a'']),
      (Name ''Count'', [IVal (- 5)])]"




definition nan_sheet :: dataframe where
  "nan_sheet =
     [(Name ''Hashtag'', [NaN, SVal ''#a'']),
      (Name ''Count'', [IVal 7, IVal 3])]"

text \<open>A sheet without a hashtag column, a sheet of twelve rows, and loaders that
  deliver them.\<close>

definition tag_sheet :: dataframe where
  "tag_sheet =
     [(Name ''Tag'', [SVal ''#a'']),
      (Name ''Count'', [IVal 1])]"

definition tag_lib :: library where
  "tag_lib = sample_lib\<lparr>read_excel := (\<lambda>p s. Inr tag_sheet)\<rparr>"

definition twelve_sheet :: dataframe where
  "twelve_sheet =
     [(Name ''Hashtag'', map (\<lambda>n. SVal (''#t'' @ str_int (int n))) [1..<13]),
      (Name ''Count'', map (\<lambda>n. IVal (100 - int n)) [1..<13])]"

definition twelve_lib :: library where
  "twelve_lib = sample_lib\<lparr>read_excel := (\<lambda>p s. Inr twelve_sheet)\<rparr>"

text \<open>A column label with its letters lowered: two sheets differ only in the letter
  case of their column names when these agree, column by column.\<close>

fun lower_name :: "colname \<Rightarrow> colname" where
  "lower_name (Name c) = Name (lower c)"
| "lower_name (NonStr n) = NonStr n"

definition upper_sheet :: dataframe where
  "upper_sheet =
     [(Name ''HASHTAG'', [SVal ''#ai'', SVal ''#ai '', SVal '' '', SVal ''#ml'']),
      (Name ''COUNT'', [IVal 120, IVal 95, IVal 50, SVal ''bad''])]"

section \<open>Auxiliary facts\<close>

subsection \<open>The order \<^verbatim>\<open>sort_values\<close> gives\<close>

lemma sorts_descD:
  assumes "sorts_desc srt"
  shows "mset (srt xs) = mset xs" and "sorted_wrt (\<lambda>a b. Count b \<le> Count a) (srt xs)"
  using assms unfolding sorts_desc_def by blast+

lemma argsort_okD:
  assumes "argsort_ok ars" and "list_all int64 ks"
  shows "mset (ars ks) = mset [0..<length ks]" and "sorted (map (\<lambda>p. ks ! p) (ars ks))"
  using assms unfolding argsort_ok_def by blast+

lemma insertion_argsort_sorts:
  "mset (insertion_argsort ks) = mset [0..<length ks]"
  "sorted (map (\<lambda>p. ks ! p) (insertion_argsort ks))"
  unfolding insertion_argsort_def by (simp, rule sorted_sort_key)

lemma argsort_ok_insertion: "argsort_ok insertion_argsort"
  unfolding argsort_ok_def by (intro allI impI conjI) (rule insertion_argsort_sorts)+

lemma argsort4_sorts:
  assumes "list_all int64 ks" and "length ks \<le> 4"
  shows "mset (argsort4 ks) = mset [0..<length ks] \<and> sorted (map (\<lambda>p. ks ! p) (argsort4 ks))"
proof -
  have upt: "[0..<Suc 0] = [0]" "[0..<2] = [0, 1]" "[0..<3] = [0, 1, 2]" "[0..<4] = [0, 1, 2, 3]"
    by code_simp+
  consider "ks = []" | a where "ks = [a]" | a b where "ks = [a, b]"
    | a b c where "ks = [a, b, c]" | a b c d where "ks = [a, b, c, d]"
  proof (cases ks)
    case Nil
    then show ?thesis using that by blast
  next
    case c1: (Cons a k1)
    show ?thesis
    proof (cases k1)
      case Nil
      then show ?thesis using that c1 by blast
    next
      case c2: (Cons b k2)
      show ?thesis
      proof (cases k2)
        case Nil
        then show ?thesis using that c1 c2 by blast
      next
        case c3: (Cons c k3)
        show ?thesis
        proof (cases k3)
          case Nil
          then show ?thesis using that c1 c2 c3 by blast
        next
          case c4: (Cons d k4)
          with assms(2) c1 c2 c3 have "k4 = []" by simp
          then show ?thesis using that c1 c2 c3 c4 by blast
        qed
      qed
    qed
  qed
  then show ?thesis
  proof cases
    case 1
    then show ?thesis by (simp add: argsort4_def)
  next
    case 2
    have "[0..<length [a]] = [0]" by simp
    moreover have "mset (argsort4 [a]) = mset [0]
        \<and> sorted (map (\<lambda>p. [a] ! p) (argsort4 [a]))"
      using assms(1) unfolding 2
      by (simp add: argsort4_def bitonic4_def cmp_merge_def int64_def)
    ultimately show ?thesis by (simp only: 2)
  next
    case 3
    have "[0..<length [a, b]] = [0, 1]" by (simp add: upt)
    moreover have "mset (argsort4 [a, b]) = mset [0, 1]
        \<and> sorted (map (\<lambda>p. [a, b] ! p) (argsort4 [a, b]))"
      using assms(1) unfolding 3
      by (auto simp: argsort4_def bitonic4_def cmp_merge_def int64_def)
    ultimately show ?thesis by (simp only: 3)
  next
    case 4
    have "[0..<length [a, b, c]] = [0, 1, 2]" by (simp add: upt)
    moreover have "mset (argsort4 [a, b, c]) = mset [0, 1, 2]
        \<and> sorted (map (\<lambda>p. [a, b, c] ! p) (argsort4 [a, b, c]))"
      using assms(1) unfolding 4
      by (auto simp: argsort4_def bitonic4_def cmp_merge_def int64_def)
    ultimately show ?thesis by (simp only: 4)
  next
    case 5
    have "[0..<length [a, b, c, d]] = [0, 1, 2, 3]" by (simp add: upt)
    moreover have "mset (argsort4 [a, b, c, d]) = mset [0, 1, 2, 3]
        \<and> sorted (map (\<lambda>p. [a, b, c, d] ! p) (argsort4 [a, b, c, d]))"
      by (auto simp: argsort4_def bitonic4_def cmp_merge_def)
    ultimately show ?thesis by (simp only: 5)
  qed
qed

lemma argsort_ok_simd: "argsort_ok simd_argsort"
  unfolding argsort_ok_def
proof (intro allI impI)
  fix ks :: "int list"
  assume ks: "list_all int64 ks"
  show "mset (simd_argsort ks) = mset [0..<length ks]
      \<and> sorted (map (\<lambda>p. ks ! p) (simd_argsort ks))"
  proof (cases "length ks \<le> 4")
    case True
    then show ?thesis using argsort4_sorts [OF ks] by (simp add: simd_argsort_def)
  next
    case False
    then show ?thesis by (simp add: simd_argsort_def insertion_argsort_sorts)
  qed
qed

lemma rev_upt_nth: "p < n \<Longrightarrow> rev [0..<n] ! p = n - 1 - p"
  by (simp add: rev_nth)

lemma map_rev_index: "map (\<lambda>p. t ! (length t - 1 - p)) [0..<length t] = rev t"
  by (rule nth_equalityI) (simp_all add: rev_nth)

lemma sort_values_desc_eq:
  assumes "set P \<subseteq> {0..<length t}" and "P = argsort L (rev (map Count t))"
  shows "sort_values_desc L t = rev (map (\<lambda>p. t ! (length t - 1 - p)) P)"
proof -
  have "map (\<lambda>p. rev [0..<length t] ! p) P = map (\<lambda>p. length t - 1 - p) P"
    by (rule map_cong [OF refl]) (use assms(1) in \<open>auto simp: rev_upt_nth\<close>)
  then show ?thesis
    unfolding sort_values_desc_def nargsort_desc_def Let_def assms(2) [symmetric]
    by (simp add: rev_map)
qed

lemma sort_values_desc_perm:
  fixes t :: table
  assumes mP: "mset (argsort L (rev (map Count t))) = mset [0..<length t]"
    and sP: "sorted (map (\<lambda>p. rev (map Count t) ! p) (argsort L (rev (map Count t))))"
  shows "mset (sort_values_desc L t) = mset t"
    and "sorted_wrt (\<lambda>a b. Count b \<le> Count a) (sort_values_desc L t)"
proof -
  let ?n = "length t"
  let ?ks = "map Count t"
  let ?P = "argsort L (rev ?ks)"
  let ?f = "\<lambda>p. t ! (?n - 1 - p)"
  have "set ?P = set [0..<?n]" using mP by (rule mset_eq_setD)
  then have inP: "set ?P \<subseteq> {0..<?n}" by simp
  have eq: "sort_values_desc L t = rev (map ?f ?P)"
    using inP refl by (rule sort_values_desc_eq)
  have "mset (map ?f ?P) = mset (map ?f [0..<?n])"
    using mP by (metis mset_map)
  also have "map ?f [0..<?n] = rev t" by (rule map_rev_index)
  finally have "mset (map ?f ?P) = mset t" by simp
  then show "mset (sort_values_desc L t) = mset t"
    unfolding eq by simp
  have "map (\<lambda>p. rev ?ks ! p) ?P = map (\<lambda>p. Count (?f p)) ?P"
    by (rule map_cong [OF refl]) (use inP in \<open>auto simp: rev_nth\<close>)
  with sP have "sorted (map Count (map ?f ?P))" by (simp add: comp_def)
  then have "sorted_wrt (\<lambda>x y. y \<le> x) (rev (map Count (map ?f ?P)))"
    by (simp add: sorted_wrt_rev)
  then have "sorted_wrt (\<lambda>x y. y \<le> x) (map Count (rev (map ?f ?P)))"
    by (simp add: rev_map)
  then show "sorted_wrt (\<lambda>a b. Count b \<le> Count a) (sort_values_desc L t)"
    unfolding eq by (simp add: sorted_wrt_map)
qed

lemma sort_values_desc_int64:
  assumes "argsort_ok (argsort L)" and "list_all (\<lambda>r. int64 (Count r)) t"
  shows "mset (sort_values_desc L t) = mset t"
    and "sorted_wrt (\<lambda>a b. Count b \<le> Count a) (sort_values_desc L t)"
proof -
  have ks: "list_all int64 (rev (map Count t))"
    using assms(2) by (simp add: list_all_iff)
  have mP: "mset (argsort L (rev (map Count t))) = mset [0..<length t]"
    using argsort_okD(1) [OF assms(1) ks] by simp
  have sP: "sorted (map (\<lambda>p. rev (map Count t) ! p) (argsort L (rev (map Count t))))"
    by (rule argsort_okD(2) [OF assms(1) ks])
  show "mset (sort_values_desc L t) = mset t"
    using mP sP by (rule sort_values_desc_perm(1))
  show "sorted_wrt (\<lambda>a b. Count b \<le> Count a) (sort_values_desc L t)"
    using mP sP by (rule sort_values_desc_perm(2))
qed

lemma sorts_desc_sample: "sorts_desc (sort_values_desc sample_lib)"
  unfolding sorts_desc_def
proof (intro allI conjI)
  fix t :: table
  have a: "argsort sample_lib = insertion_argsort" by (simp add: sample_lib_def)
  have mP: "mset (argsort sample_lib (rev (map Count t))) = mset [0..<length t]"
    unfolding a using insertion_argsort_sorts(1) [of "rev (map Count t)"] by simp
  have sP: "sorted (map (\<lambda>p. rev (map Count t) ! p) (argsort sample_lib (rev (map Count t))))"
    unfolding a by (rule insertion_argsort_sorts(2))
  show "mset (sort_values_desc sample_lib t) = mset t"
    using mP sP by (rule sort_values_desc_perm(1))
  show "sorted_wrt (\<lambda>a b. Count b \<le> Count a) (sort_values_desc sample_lib t)"
    using mP sP by (rule sort_values_desc_perm(2))
qed

lemma desc_unique:
  assumes xs: "sorted_wrt (\<lambda>a b. Count b \<le> Count a) xs"
    and ys: "sorted_wrt (\<lambda>a b. Count b < Count a) ys"
    and m: "mset xs = mset ys"
  shows "xs = ys"
proof -
  let ?f = "\<lambda>r. - Count r"
  have sx: "sorted (map ?f xs)" using xs by (simp add: sorted_map)
  have "sorted_wrt (<) (map ?f ys)" using ys by (simp add: sorted_wrt_map)
  then have sy: "sorted (map ?f ys)" and dy: "distinct (map ?f ys)"
    by (simp_all add: strict_sorted_iff)
  have "mset (map ?f xs) = mset (map ?f ys)" using m by simp
  then have eq: "map ?f xs = map ?f ys"
    using sx sy by (metis properties_for_sort)
  have "inj_on ?f (set ys)" using dy by (simp add: distinct_map)
  moreover have "set xs = set ys" using m by (metis set_mset_mset)
  ultimately have "inj_on ?f (set xs \<union> set ys)" by simp
  then show ?thesis using eq by (simp add: inj_on_map_eq_map)
qed

lemma set_sorted:
  assumes "mset (sort_values_desc L u) = mset u"
  shows "set (sort_values_desc L u) = set u"
  using assms by (metis set_mset_mset)

subsection \<open>Stripping\<close>

lemma lstrip_with_fixed:
  "find (\<lambda>w. w \<noteq> [] \<and> prefix w s) ws = None \<Longrightarrow> lstrip_with ws s = s"
  by (subst lstrip_with.simps) simp

lemma lstrip_with_done:
  "find (\<lambda>w. w \<noteq> [] \<and> prefix w (lstrip_with ws s)) ws = None"
proof (induction ws s rule: lstrip_with.induct)
  case (1 ws s)
  show ?case
  proof (cases "find (\<lambda>w. w \<noteq> [] \<and> prefix w s) ws")
    case None
    then show ?thesis by (simp add: lstrip_with_fixed)
  next
    case (Some w)
    then have "lstrip_with ws s = lstrip_with ws (drop (length w) s)"
      by (subst lstrip_with.simps) simp
    with 1 [OF Some] show ?thesis by simp
  qed
qed

lemma lstrip_with_suffix: "suffix (lstrip_with ws s) s"
proof (induction ws s rule: lstrip_with.induct)
  case (1 ws s)
  show ?case
  proof (cases "find (\<lambda>w. w \<noteq> [] \<and> prefix w s) ws")
    case None
    then show ?thesis by (simp add: lstrip_with_fixed)
  next
    case (Some w)
    then have eq: "lstrip_with ws s = lstrip_with ws (drop (length w) s)"
      by (subst lstrip_with.simps) simp
    have "suffix (lstrip_with ws (drop (length w) s)) (drop (length w) s)"
      by (rule 1 [OF Some])
    moreover have "suffix (drop (length w) s) s" by (rule suffix_drop)
    ultimately show ?thesis unfolding eq by (rule suffix_order.trans)
  qed
qed

lemma find_None_prefix:
  assumes "find (\<lambda>w. w \<noteq> [] \<and> prefix w s) ws = None" and "prefix t s"
  shows "find (\<lambda>w. w \<noteq> [] \<and> prefix w t) ws = None"
proof -
  have "\<not> (w \<noteq> [] \<and> prefix w t)" if "w \<in> set ws" for w
  proof
    assume "w \<noteq> [] \<and> prefix w t"
    then have "w \<noteq> [] \<and> prefix w s" using assms(2) by (auto intro: prefix_order.trans)
    with assms(1) that show False by (auto simp: find_None_iff)
  qed
  then show ?thesis by (auto simp: find_None_iff)
qed

lemma rstrip_prefix: "prefix (rstrip s) s"
proof -
  have "suffix (lstrip_with (map rev whitespace) (rev s)) (rev s)" by (rule lstrip_with_suffix)
  then have "prefix (rev (lstrip_with (map rev whitespace) (rev s))) (rev (rev s))"
    by (simp only: suffix_to_prefix)
  then show ?thesis by (simp add: rstrip_def)
qed

lemma rstrip_rstrip: "rstrip (rstrip s) = rstrip s"
  by (simp add: rstrip_def lstrip_with_fixed lstrip_with_done)

lemma lstrip_rstrip_lstrip: "lstrip (rstrip (lstrip s)) = rstrip (lstrip s)"
proof -
  have "find (\<lambda>w. w \<noteq> [] \<and> prefix w (lstrip s)) whitespace = None"
    unfolding lstrip_def by (rule lstrip_with_done)
  then have "find (\<lambda>w. w \<noteq> [] \<and> prefix w (rstrip (lstrip s))) whitespace = None"
    using rstrip_prefix by (rule find_None_prefix)
  then show ?thesis unfolding lstrip_def by (rule lstrip_with_fixed)
qed

lemma strip_strip: "strip (strip s) = strip s"
  by (simp add: strip_def lstrip_rstrip_lstrip rstrip_rstrip)


subsection \<open>Resolving the columns\<close>

lemma cols_lower_lookup:
  "cols_lower ns m = Inr m' \<Longrightarrow>
     m' k = (if filter (\<lambda>n. lower_name n = Name k) ns = [] then m k
             else (case last (filter (\<lambda>n. lower_name n = Name k) ns) of
                     Name c \<Rightarrow> Some c | NonStr i \<Rightarrow> None))"
proof (induction ns arbitrary: m)
  case Nil
  then show ?case by simp
next
  case (Cons n ns)
  show ?case
  proof (cases n)
    case (Name c)
    let ?F = "filter (\<lambda>n. lower_name n = Name k) ns"
    from Cons.prems Name have "cols_lower ns (m(lower c \<mapsto> c)) = Inr m'" by simp
    from Cons.IH [OF this]
    have ih: "m' k = (if ?F = [] then (m(lower c \<mapsto> c)) k
             else (case last ?F of Name c \<Rightarrow> Some c | NonStr i \<Rightarrow> None))" .
    show ?thesis
    proof (cases "lower c = k")
      case True
      then show ?thesis using ih Name by simp
    next
      case False
      then show ?thesis using ih Name by simp
    qed
  next
    case (NonStr i)
    with Cons.prems show ?thesis by simp
  qed
qed

lemma cols_lower_ok:
  "(\<forall>n\<in>set ns. \<exists>c. n = Name c) \<Longrightarrow> \<exists>m'. cols_lower ns m = Inr m'"
proof (induction ns arbitrary: m)
  case Nil
  then show ?case by simp
next
  case (Cons n ns)
  from Cons.prems obtain c where n: "n = Name c" by auto
  from Cons.prems have "\<forall>n\<in>set ns. \<exists>c. n = Name c" by simp
  from Cons.IH [OF this, of "m(lower c \<mapsto> c)"]
  obtain m' where "cols_lower ns (m(lower c \<mapsto> c)) = Inr m'" by blast
  then have "cols_lower (n # ns) m = Inr m'" by (simp add: n)
  then show ?case by blast
qed

lemma cols_lower_names:
  "cols_lower ns m = Inr m' \<Longrightarrow> \<forall>n\<in>set ns. \<exists>c. n = Name c"
proof (induction ns arbitrary: m)
  case Nil
  then show ?case by simp
next
  case (Cons n ns)
  show ?case
  proof (cases n)
    case (Name c)
    with Cons.prems have "cols_lower ns (m(lower c \<mapsto> c)) = Inr m'" by simp
    from Cons.IH [OF this] Name show ?thesis by simp
  next
    case (NonStr i)
    with Cons.prems show ?thesis by simp
  qed
qed

lemma find_columns_Inr:
  "find_columns df = Inr (h, c) \<longleftrightarrow>
     (\<exists>m. cols_lower (map fst df) Map.empty = Inr m
        \<and> m ''hashtag'' = Some h \<and> m ''count'' = Some c \<and> h \<noteq> [] \<and> c \<noteq> [])"
  by (auto simp: find_columns_def falsy_def Let_def split: sum.splits option.splits)

lemma find_columns_missing:
  assumes "cols_lower (map fst df) Map.empty = Inr m"
    and "m ''hashtag'' = None \<or> m ''count'' = None"
  shows "find_columns df = Inl (ValueError (map fst df))"
  using assms by (auto simp: find_columns_def falsy_def)

lemma filter_fst_unique:
  assumes "distinct (map fst xs)" and "(a, b) \<in> set xs"
  shows "filter (\<lambda>kv. fst kv = a) xs = [(a, b)]"
  using assms
proof (induction xs)
  case Nil
  then show ?case by simp
next
  case (Cons x xs)
  show ?case
  proof (cases "x = (a, b)")
    case True
    with Cons.prems(1) have "a \<notin> fst ` set xs" by simp
    then have "filter (\<lambda>kv. fst kv = a) xs = []"
      by (auto simp: filter_empty_conv)
    with True show ?thesis by simp
  next
    case False
    with Cons.prems have in_xs: "(a, b) \<in> set xs" and d: "distinct (map fst xs)" by simp_all
    from in_xs have "a \<in> fst ` set xs" by force
    with Cons.prems(1) have "fst x \<noteq> a" by auto
    with Cons.IH [OF d in_xs] show ?thesis by simp
  qed
qed

lemma getcols_unique:
  assumes "distinct (map fst df)" and "(Name c, cells) \<in> set df"
  shows "getcols df c = [cells]"
  by (simp add: getcols_def filter_fst_unique [OF assms])

lemma filter_case_corr:
  assumes "map (\<lambda>x. lower_name (fst x)) df1 = map (\<lambda>x. lower_name (fst x)) df2"
    and "map snd df1 = map snd df2"
  shows "map snd (filter (\<lambda>x. lower_name (fst x) = K) df1)
       = map snd (filter (\<lambda>x. lower_name (fst x) = K) df2)"
  using assms
proof (induction df1 arbitrary: df2)
  case Nil
  then show ?case by simp
next
  case (Cons x xs)
  then obtain y ys where df2: "df2 = y # ys" by (cases df2) auto
  with Cons.prems have h: "lower_name (fst x) = lower_name (fst y)" "snd x = snd y"
    and t: "map (\<lambda>x. lower_name (fst x)) xs = map (\<lambda>x. lower_name (fst x)) ys" "map snd xs = map snd ys"
    by simp_all
  from Cons.IH [OF t] h show ?case by (simp add: df2)
qed

lemma resolve_column:
  assumes cl: "cols_lower (map fst df) Map.empty = Inr m"
    and d: "distinct (map fst df)"
    and k: "m k = Some c"
  shows "filter (\<lambda>x. lower_name (fst x) = Name k) df \<noteq> []
     \<and> getcols df c = [last (map snd (filter (\<lambda>x. lower_name (fst x) = Name k) df))]"
proof -
  let ?F = "filter (\<lambda>x. lower_name (fst x) = Name k) df"
  have fm: "filter (\<lambda>n. lower_name n = Name k) (map fst df) = map fst ?F"
    by (simp add: filter_map comp_def)
  from cols_lower_lookup [OF cl, of k] k
  have ne: "?F \<noteq> []" and l: "last (map fst ?F) = Name c"
    unfolding fm by (auto split: if_splits colname.splits)
  from ne l have "fst (last ?F) = Name c" by (simp add: last_map)
  moreover have "last ?F \<in> set df" using ne last_in_set [of ?F] by auto
  ultimately have "(Name c, snd (last ?F)) \<in> set df" by (metis prod.collapse)
  from getcols_unique [OF d this] ne show ?thesis by (simp add: last_map)
qed

lemma lookup_Some:
  assumes cl: "cols_lower (map fst df) Map.empty = Inr m"
    and ne: "filter (\<lambda>x. lower_name (fst x) = Name k) df \<noteq> []"
  shows "\<exists>c. m k = Some c \<and> lower c = k"
proof -
  let ?F = "filter (\<lambda>x. lower_name (fst x) = Name k) df"
  have fm: "filter (\<lambda>n. lower_name n = Name k) (map fst df) = map fst ?F"
    by (simp add: filter_map comp_def)
  have "last ?F \<in> set ?F" using ne by (rule last_in_set)
  then have low: "lower_name (fst (last ?F)) = Name k" by simp
  then obtain c where c: "fst (last ?F) = Name c" by (cases "fst (last ?F)") simp_all
  with low have "lower c = k" by simp
  moreover from cols_lower_lookup [OF cl, of k] ne c have "m k = Some c"
    unfolding fm by (simp add: last_map)
  ultimately show ?thesis by blast
qed

lemma same_case_all_names:
  assumes "map (\<lambda>x. lower_name (fst x)) df1 = map (\<lambda>x. lower_name (fst x)) df2"
    and "\<forall>n\<in>set (map fst df1). \<exists>c. n = Name c"
  shows "\<forall>n\<in>set (map fst df2). \<exists>c. n = Name c"
proof
  fix n assume "n \<in> set (map fst df2)"
  then have "lower_name n \<in> set (map (\<lambda>x. lower_name (fst x)) df2)" by auto
  then have "lower_name n \<in> set (map (\<lambda>x. lower_name (fst x)) df1)" by (simp only: assms(1))
  then obtain n1 where "n1 \<in> set (map fst df1)" and e: "lower_name n = lower_name n1" by auto
  with assms(2) obtain c where "n1 = Name c" by blast
  with e show "\<exists>c. n = Name c" by (cases n) simp_all
qed



subsection \<open>Cleaning, filtering and reindexing\<close>

lemma map_filter_all:
  assumes "list_all (\<lambda>x. f x \<noteq> None) xs"
  shows "map Some (List.map_filter f xs) = map f xs"
  using assms by (induction xs) (auto simp: map_filter_simps)

lemma map_filter_all_length:
  assumes "list_all (\<lambda>x. f x \<noteq> None) xs"
  shows "length (List.map_filter f xs) = length xs"
  using map_filter_all [OF assms] by (metis length_map)

lemma map_filter_all_nth:
  assumes "list_all (\<lambda>x. f x \<noteq> None) xs" and "i < length xs"
  shows "f (xs ! i) = Some (List.map_filter f xs ! i)"
proof -
  have "map f xs ! i = map Some (List.map_filter f xs) ! i"
    by (simp only: map_filter_all [OF assms(1)])
  then show ?thesis
    using assms(2) by (simp add: map_filter_all_length [OF assms(1)])
qed

lemma expo53_small: "n < 2 ^ 53 \<Longrightarrow> expo53 n = 0"
  by (subst expo53.simps) simp

lemma float64_of_int_small:
  assumes "\<bar>n\<bar> < 2 ^ 53"
  shows "float64_of_int n = Num (of_int n)"
proof -
  have "expo53 \<bar>n\<bar> = 0" using assms by (rule expo53_small)
  then have "round53 \<bar>n\<bar> = \<bar>n\<bar>" by (simp add: round53_def)
  moreover have "sgn n * \<bar>n\<bar> = n" by (simp add: sgn_mult_abs)
  ultimately show ?thesis by (simp add: float64_of_int_def)
qed


lemma astype_int_range: "- (2 ^ 63) \<le> astype_int q \<and> astype_int q < 2 ^ 63"
  by (simp add: astype_int_def Let_def)

lemma wrap64_range: "- (2 ^ 63) \<le> wrap64 n \<and> wrap64 n < 2 ^ 63"
proof -
  have "0 \<le> (n + 9223372036854775808) mod 18446744073709551616"
    and "(n + 9223372036854775808) mod 18446744073709551616 < (18446744073709551616::int)"
    by simp_all
  then show ?thesis unfolding wrap64_def by simp
qed





lemma the_int_Some: "the_int x = Some n \<longleftrightarrow> x = Some (PInt n)"
  by (cases x rule: the_int.cases) simp_all



lemma clean_counts_length:
  assumes "clean_counts L cs = Inr counts"
  shows "length counts = length cs"
proof (cases "list_all (\<lambda>x. the_int x \<noteq> None) (map (to_numeric L) cs)")
  case True
  then have "counts = map wrap64 (List.map_filter the_int (map (to_numeric L) cs))"
    using assms by (simp add: clean_counts_def to_numeric_col_def)
  then show ?thesis by (simp add: map_filter_all_length [OF True])
next
  case False
  let ?fs = "map (fillna (Num 0)) (map promote (map (to_numeric L) cs))"
  have cc: "astype_int_col ?fs = Inr counts"
    using False assms by (simp add: clean_counts_def to_numeric_col_def)
  then have all: "list_all (\<lambda>f. cast_float f \<noteq> None) ?fs"
    and counts: "counts = List.map_filter cast_float ?fs"
    by (simp_all add: astype_int_col_def split: if_splits)
  show ?thesis unfolding counts
    by (rule trans [OF map_filter_all_length [OF all]]) simp
qed

lemma clean_counts_cell:
  assumes ok: "clean_counts L cs = Inr counts" and i: "i < length cs"
  shows "(\<exists>n. to_numeric L (cs ! i) = Some (PInt n) \<and> counts ! i = wrap64 n)
     \<or> cast_float (fillna (Num 0) (promote (to_numeric L (cs ! i)))) = Some (counts ! i)"
proof (cases "list_all (\<lambda>x. the_int x \<noteq> None) (map (to_numeric L) cs)")
  case True
  let ?items = "map (to_numeric L) cs"
  have counts: "counts = map wrap64 (List.map_filter the_int ?items)"
    using True ok by (simp add: clean_counts_def to_numeric_col_def)
  have len: "length (List.map_filter the_int ?items) = length cs"
    by (simp add: map_filter_all_length [OF True])
  have "the_int (?items ! i) = Some (List.map_filter the_int ?items ! i)"
    by (rule map_filter_all_nth [OF True]) (simp add: i)
  then have "to_numeric L (cs ! i) = Some (PInt (List.map_filter the_int ?items ! i))"
    using i by (simp add: the_int_Some)
  moreover have "counts ! i = wrap64 (List.map_filter the_int ?items ! i)"
    unfolding counts using i len by simp
  ultimately show ?thesis by blast
next
  case False
  let ?fs = "map (fillna (Num 0)) (map promote (map (to_numeric L) cs))"
  have cc: "astype_int_col ?fs = Inr counts"
    using False ok by (simp add: clean_counts_def to_numeric_col_def)
  then have all: "list_all (\<lambda>f. cast_float f \<noteq> None) ?fs"
    and counts: "counts = List.map_filter cast_float ?fs"
    by (simp_all add: astype_int_col_def split: if_splits)
  have "cast_float (?fs ! i) = Some (List.map_filter cast_float ?fs ! i)"
    by (rule map_filter_all_nth [OF all]) (simp add: i)
  then show ?thesis unfolding counts using i by simp
qed




lemma clean_counts_range:
  assumes "clean_counts L cs = Inr counts" and "i < length cs"
  shows "int64 (counts ! i)"
proof -
  from clean_counts_cell [OF assms] consider
    n where "counts ! i = wrap64 n" | f where "cast_float f = Some (counts ! i)" by blast
  then show ?thesis
  proof cases
    case 1
    then show ?thesis by (simp only: int64_def wrap64_range)
  next
    case 2
    then have "\<exists>q. astype_int q = counts ! i" by (cases f) auto
    then show ?thesis unfolding int64_def by (metis astype_int_range)
  qed
qed

lemma cleaned_Inr:
  "cleaned L hs cs = Inr fr \<longleftrightarrow>
     (\<exists>counts. clean_counts L cs = Inr counts
        \<and> fr = zip [0..<length hs] (zip (map (clean_hashtag L (dtype_of hs)) hs) counts))"
  by (auto simp: cleaned_def split: sum.splits)

lemma frame_nth:
  assumes "i < length hs" and "i < length counts"
  shows "zip [0..<length hs] (zip (map f hs) counts) ! i = (i, f (hs ! i), counts ! i)"
  using assms by simp

lemma frame_set:
  assumes "(i, l, c) \<in> set (zip [0..<length hs] (zip (map f hs) counts))"
  shows "i < length hs \<and> i < length counts \<and> l = f (hs ! i) \<and> c = counts ! i"
proof -
  from assms obtain k where k: "k < length hs" "k < length counts"
    and eq: "(i, l, c) = zip [0..<length hs] (zip (map f hs) counts) ! k"
    by (auto simp: in_set_conv_nth)
  from eq have "(i, l, c) = (k, f (hs ! k), counts ! k)"
    by (simp only: frame_nth [OF k])
  with k show ?thesis by simp
qed

lemma keep_row_Some:
  "keep_row x = Some r \<longleftrightarrow> x = (idx r, Some (Hashtag r), Count r) \<and> Hashtag r \<noteq> []"
  by (cases x rule: keep_row.cases) auto

lemma in_drop_empty:
  "r \<in> set (drop_empty fr) \<longleftrightarrow> (idx r, Some (Hashtag r), Count r) \<in> set fr \<and> Hashtag r \<noteq> []"
  unfolding drop_empty_def by (induction fr) (auto simp: map_filter_simps keep_row_Some split: option.splits)

lemma values_of_drop_empty:
  "values_of (drop_empty fr) = [(h, c). (i, Some h, c) \<leftarrow> fr, h \<noteq> []]"
  unfolding drop_empty_def values_of_def
proof (induction fr)
  case Nil
  show ?case by (simp add: map_filter_simps)
next
  case (Cons x fr)
  show ?case using Cons.IH by (cases x rule: keep_row.cases) (simp_all add: map_filter_simps)
qed

lemma length_reset_index: "length (reset_index t) = length t"
  by (simp add: reset_index_def)

lemma reset_index_nth:
  "i < length t \<Longrightarrow> reset_index t ! i = (t ! i)\<lparr>idx := i\<rparr>"
  by (simp add: reset_index_def)

lemma values_of_reset_index: "values_of (reset_index t) = values_of t"
  by (rule nth_equalityI) (simp_all add: values_of_def length_reset_index reset_index_nth)

lemma map_Count_reset_index: "map Count (reset_index t) = map Count t"
  by (rule nth_equalityI) (simp_all add: length_reset_index reset_index_nth)

lemma map_idx_reset_index: "map idx (reset_index t) = [0..<length t]"
  by (rule nth_equalityI) (simp_all add: length_reset_index reset_index_nth)

lemma sorted_desc_reset_index:
  "sorted_wrt (\<lambda>a b. Count b \<le> Count a) (reset_index t) = sorted_wrt (\<lambda>a b. Count b \<le> Count a) t"
proof -
  have "sorted_wrt (\<lambda>a b. Count b \<le> Count a) s = sorted_wrt (\<lambda>x y. y \<le> x) (map Count s)" for s :: table
    by (simp add: sorted_wrt_map)
  then show ?thesis by (simp add: map_Count_reset_index)
qed

lemma mset_values_of: "mset s = mset t \<Longrightarrow> mset (values_of s) = mset (values_of t)"
  unfolding values_of_def by (metis mset_map)

lemma reset_index_3: "reset_index [a, b, c] = [a\<lparr>idx := 0\<rparr>, b\<lparr>idx := 1\<rparr>, c\<lparr>idx := 2\<rparr>]"
  by (simp add: reset_index_def upt_rec [of 0] upt_rec [of 1] upt_rec [of 2])

lemma normalize_Inr:
  "normalize L df = Inr t \<longleftrightarrow> (\<exists>u. filtered L df = Inr u \<and> t = reset_index (sort_values_desc L u))"
  by (auto simp: normalize_def split: sum.splits)

lemma filtered_Inr:
  "filtered L df = Inr u \<longleftrightarrow>
     (\<exists>h c hs cs fr. find_columns df = Inr (h, c) \<and> select2 df h c = Inr (hs, cs)
        \<and> cleaned L hs cs = Inr fr \<and> u = drop_empty fr)"
  by (auto simp: filtered_def split: sum.splits prod.splits)

lemma filtered_of_columns:
  assumes fc: "find_columns df = Inr (h, c)" and sel: "select2 df h c = Inr (hs, cs)"
  shows "filtered L df =
     (case cleaned L hs cs of Inl e \<Rightarrow> Inl e | Inr fr \<Rightarrow> Inr (drop_empty fr))"
  by (simp add: filtered_def fc sel)

lemma normalize_of_columns:
  assumes fc: "find_columns df = Inr (h, c)" and sel: "select2 df h c = Inr (hs, cs)"
  shows "normalize L df =
     (case cleaned L hs cs of
        Inl e \<Rightarrow> Inl e
      | Inr fr \<Rightarrow> Inr (reset_index (sort_values_desc L (drop_empty fr))))"
  by (simp add: normalize_def filtered_def fc sel split: sum.splits)

lemma normalize_missing:
  assumes "cols_lower (map fst df) Map.empty = Inr m"
    and "m ''hashtag'' = None \<or> m ''count'' = None"
  shows "normalize L df = Inl (ValueError (map fst df))"
  by (simp add: normalize_def filtered_def find_columns_missing [OF assms])

lemma drop_empty_int64:
  assumes cc: "clean_counts L cs = Inr counts"
  shows "list_all (\<lambda>r. int64 (Count r))
     (drop_empty (zip [0..<length hs] (zip (map f hs) counts)))"
  unfolding list_all_iff
proof
  fix r
  assume "r \<in> set (drop_empty (zip [0..<length hs] (zip (map f hs) counts)))"
  then have "(idx r, Some (Hashtag r), Count r) \<in> set (zip [0..<length hs] (zip (map f hs) counts))"
    by (simp add: in_drop_empty)
  from frame_set [OF this] have "idx r < length counts" and "Count r = counts ! idx r"
    by simp_all
  with clean_counts_range [OF cc, of "idx r"] show "int64 (Count r)"
    by (simp add: clean_counts_length [OF cc])
qed

lemma filtered_int64:
  assumes "filtered L df = Inr u"
  shows "list_all (\<lambda>r. int64 (Count r)) u"
proof -
  from assms obtain hs cs fr where "cleaned L hs cs = Inr fr" and u: "u = drop_empty fr"
    unfolding filtered_Inr by blast
  then obtain counts where cc: "clean_counts L cs = Inr counts"
    and fr: "fr = zip [0..<length hs] (zip (map (clean_hashtag L (dtype_of hs)) hs) counts)"
    unfolding cleaned_Inr by blast
  show ?thesis unfolding u fr using cc by (rule drop_empty_int64)
qed

lemma set_values_of_normalized:
  assumes srt: "mset (sort_values_desc L u) = mset u"
  shows "set (values_of (reset_index (sort_values_desc L u))) = set (values_of u)"
proof -
  have "set (values_of (sort_values_desc L u)) = set (values_of u)"
    by (simp add: values_of_def set_sorted [OF srt])
  then show ?thesis by (simp add: values_of_reset_index)
qed

lemma in_set_reset_index:
  assumes "r \<in> set (reset_index t)"
  shows "\<exists>s\<in>set t. Hashtag r = Hashtag s \<and> Count r = Count s"
proof -
  from assms obtain i where "i < length t" and "r = (t ! i)\<lparr>idx := i\<rparr>"
    by (auto simp: in_set_conv_nth length_reset_index reset_index_nth)
  then show ?thesis by (auto intro: bexI [of _ "t ! i"])
qed

lemma normalized_row_origin:
  assumes srt: "mset (sort_values_desc L (drop_empty fr)) = mset (drop_empty fr)"
    and r: "r \<in> set (reset_index (sort_values_desc L (drop_empty fr)))"
  shows "\<exists>i. (i, Some (Hashtag r), Count r) \<in> set fr \<and> Hashtag r \<noteq> []"
proof -
  from in_set_reset_index [OF r] obtain s
    where s: "s \<in> set (sort_values_desc L (drop_empty fr))"
      and eq: "Hashtag r = Hashtag s" "Count r = Count s" by blast
  from s have "s \<in> set (drop_empty fr)" by (simp add: set_sorted [OF srt])
  then have "(idx s, Some (Hashtag s), Count s) \<in> set fr" and "Hashtag s \<noteq> []"
    by (simp_all add: in_drop_empty)
  with eq show ?thesis by auto
qed

lemma row_kept:
  assumes fc: "find_columns df = Inr (h, c)"
    and sel: "select2 df h c = Inr (hs, cs)"
    and cc: "clean_counts L cs = Inr counts"
    and srt: "mset (sort_values_desc L
        (drop_empty (zip [0..<length hs] (zip (map (clean_hashtag L (dtype_of hs)) hs) counts))))
      = mset (drop_empty (zip [0..<length hs] (zip (map (clean_hashtag L (dtype_of hs)) hs) counts)))"
    and ih: "i < length hs" and ic: "i < length cs"
    and lbl: "clean_hashtag L (dtype_of hs) (hs ! i) = Some l" and ne: "l \<noteq> []"
  shows "\<exists>t u. normalize L df = Inr t \<and> filtered L df = Inr u
     \<and> \<lparr>idx = i, Hashtag = l, Count = counts ! i\<rparr> \<in> set u
     \<and> mset (values_of t) = mset (values_of u)
     \<and> (l, counts ! i) \<in> set (values_of t)"
proof -
  let ?fr = "zip [0..<length hs] (zip (map (clean_hashtag L (dtype_of hs)) hs) counts)"
  let ?r = "\<lparr>idx = i, Hashtag = l, Count = counts ! i\<rparr>"
  let ?u = "drop_empty ?fr"
  let ?t = "reset_index (sort_values_desc L ?u)"
  have cl: "cleaned L hs cs = Inr ?fr" by (simp add: cleaned_def cc)
  have ic': "i < length counts" using ic by (simp add: clean_counts_length [OF cc])
  have "?fr ! i = (i, Some l, counts ! i)"
    by (simp only: frame_nth [OF ih ic'] lbl)
  moreover have "i < length ?fr" using ih ic' by simp
  ultimately have "(i, Some l, counts ! i) \<in> set ?fr" by (metis nth_mem)
  then have mem: "?r \<in> set ?u" using ne by (simp add: in_drop_empty)
  then have "(Hashtag ?r, Count ?r) \<in> set (values_of ?u)"
    unfolding values_of_def set_map by (rule imageI)
  then have v: "(l, counts ! i) \<in> set (values_of ?t)"
    by (simp add: set_values_of_normalized [OF srt])
  have n: "normalize L df = Inr ?t" by (simp add: normalize_of_columns [OF fc sel] cl)
  have f: "filtered L df = Inr ?u" by (simp add: filtered_of_columns [OF fc sel] cl)
  have m: "mset (values_of ?t) = mset (values_of ?u)"
    unfolding values_of_reset_index
    by (rule mset_values_of) (rule srt)
  show ?thesis
    by (intro exI conjI) (rule n f mem m v)+
qed

subsection \<open>Files and the run\<close>

lemma makedirs_Inr:
  "makedirs p fs = Inr fs1 \<longleftrightarrow>
     p \<noteq> [] \<and> p \<notin> dom (files fs) \<and> fs1 = fs\<lparr>dirs := insert p (dirs fs)\<rparr>"
  by (auto simp: makedirs_def)

lemma makedirs_files: "makedirs p fs = Inr fs1 \<Longrightarrow> files fs1 = files fs"
  by (simp add: makedirs_Inr)

lemma path_join_self: "a = path_join a b \<Longrightarrow> b = []" "path_join a b = a \<Longrightarrow> b = []"
  by (simp_all add: path_join_def split: if_splits)

lemma path_join_inj: "path_join a b = path_join a c \<longleftrightarrow> b = c"
  by (simp add: path_join_def)

lemma write_file_files: "files (write_file p c fs) = (files fs)(p \<mapsto> c)"
  by (simp add: write_file_def)

lemma write_file_twice [simp]: "write_file p c (write_file p c fs) = write_file p c fs"
  by (simp add: write_file_def)

lemma rewrite2:
  "write_file q d (write_file p c (write_file q d (write_file p c fs)))
     = write_file q d (write_file p c fs)"
  by (simp add: write_file_def fun_eq_iff)

lemma rewrite4:
  "write_file s f (write_file r e (write_file q d (write_file p c
     (write_file s f (write_file r e (write_file q d (write_file p c fs)))))))
     = write_file s f (write_file r e (write_file q d (write_file p c fs)))"
  by (simp add: write_file_def fun_eq_iff)

lemma makedirs_again:
  assumes "makedirs p fs = Inr fs1"
    and "dirs fs2 = dirs fs1" and "dom (files fs2) \<subseteq> dom (files fs) \<union> {path_join p b | b. b \<noteq> []}"
  shows "makedirs p fs2 = Inr fs2"
proof -
  from assms(1) have p: "p \<noteq> []" "p \<notin> dom (files fs)" and d: "p \<in> dirs fs1"
    by (auto simp: makedirs_Inr)
  have "p \<notin> {path_join p b | b. b \<noteq> []}" by (auto dest: path_join_self)
  with p assms(3) have "p \<notin> dom (files fs2)" by blast
  moreover have "insert p (dirs fs2) = dirs fs2" using d assms(2) by auto
  ultimately show ?thesis using p by (simp add: makedirs_def)
qed

lemma makedirs_after_writes:
  assumes mk: "makedirs p fs = Inr fs1"
    and d: "dirs fs2 = dirs fs1"
    and f: "\<forall>x. x \<in> dom (files fs2) \<longrightarrow> x \<in> dom (files fs1) \<or> (\<exists>b. b \<noteq> [] \<and> x = path_join p b)"
  shows "makedirs p fs2 = Inr fs2"
proof (rule makedirs_again [OF mk d])
  show "dom (files fs2) \<subseteq> dom (files fs) \<union> {path_join p b | b. b \<noteq> []}"
    using f makedirs_files [OF mk] by auto
qed

lemma main_idempotent:
  "main L input_path sheet_name outdir (snd (main L input_path sheet_name outdir fs))
     = main L input_path sheet_name outdir fs"
proof (cases "makedirs outdir fs")
  case (Inl e)
  then show ?thesis by (simp add: main_def)
next
  case mk: (Inr fs1)
  have again: "makedirs outdir fs2 = Inr fs2"
    if "dirs fs2 = dirs fs1"
      and "\<forall>x. x \<in> dom (files fs2) \<longrightarrow> x \<in> dom (files fs1) \<or> (\<exists>b. b \<noteq> [] \<and> x = path_join outdir b)"
    for fs2
    using mk that by (rule makedirs_after_writes)
  have a1: "makedirs outdir fs1 = Inr fs1" by (rule again) simp_all
  show ?thesis
  proof (cases "read_excel L input_path (sheet_of sheet_name)")
    case (Inl e)
    then show ?thesis by (simp add: main_def mk a1)
  next
    case rd: (Inr df0)
    show ?thesis
    proof (cases "normalize L df0")
      case (Inl e)
      then show ?thesis by (simp add: main_def mk a1 rd)
    next
      case nm: (Inr df)
      let ?csv = "path_join outdir ''top_hashtags_cleaned.csv''"
      let ?fs2 = "write_file ?csv (to_csv L df) fs1"
      have a2: "makedirs outdir ?fs2 = Inr ?fs2"
        by (rule again) (auto simp: write_file_def)
      show ?thesis
      proof (cases "savefig_bar L df")
        case (Inl e)
        then show ?thesis by (simp add: main_def mk rd nm a2)
      next
        case bar: (Inr b)
        let ?fs3 = "write_file (path_join outdir ''top_hashtags_bar.png'') b ?fs2"
        have a3: "makedirs outdir ?fs3 = Inr ?fs3"
          by (rule again) (auto simp: write_file_def)
        show ?thesis
        proof (cases "savefig_pie L df")
          case (Inl e)
          then show ?thesis by (simp add: main_def mk rd nm bar a3 rewrite2)
        next
          case pie: (Inr p)
          let ?fs5 = "write_file (path_join outdir ''REPORT.md'') (report L df)
                        (write_file (path_join outdir ''top_hashtags_pie.png'') p ?fs3)"
          have a5: "makedirs outdir ?fs5 = Inr ?fs5"
            by (rule again) (auto simp: write_file_def)
          show ?thesis by (simp add: main_def mk rd nm bar pie a5 rewrite4)
        qed
      qed
    qed
  qed
qed

lemma main_success:
  assumes "main L input_path sheet_name outdir fs = (Inr (), fs')"
  shows "\<exists>fs1 df0 df bar pie.
      makedirs outdir fs = Inr fs1
    \<and> read_excel L input_path (sheet_of sheet_name) = Inr df0
    \<and> normalize L df0 = Inr df
    \<and> savefig_bar L df = Inr bar
    \<and> savefig_pie L df = Inr pie
    \<and> fs' = write_file (path_join outdir ''REPORT.md'') (report L df)
             (write_file (path_join outdir ''top_hashtags_pie.png'') pie
             (write_file (path_join outdir ''top_hashtags_bar.png'') bar
             (write_file (path_join outdir ''top_hashtags_cleaned.csv'') (to_csv L df) fs1)))"
  using assms by (auto simp: main_def Let_def split: sum.splits)


subsection \<open>The sample sheets, evaluated\<close>

lemma lower_ex: "lower ''Hashtag'' = ''hashtag''" "lower ''Count'' = ''count''"
  by code_simp+

lemma lower_tag: "lower ''Tag'' = ''tag''" by code_simp

lemma strip_ex: "strip ''#ai '' = ''#ai''" "strip ''#ai'' = ''#ai''" "strip '' '' = ''''" "strip ''#ml'' = ''#ml''"  "strip ''nan'' = ''nan''"
  by code_simp+


lemma upt4: "[0..<4] = [0, 1, 2, 3]" by code_simp

lemma find_columns_sample: "find_columns sample_sheet = Inr (''Hashtag'', ''Count'')"
  by code_simp

lemma select2_sample: "select2 sample_sheet ''Hashtag'' ''Count'' =
   Inr ([SVal ''#ai'', SVal ''#ai '', SVal '' '', SVal ''#ml''], [IVal 120, IVal 95, IVal 50, SVal ''bad''])"
  by code_simp

lemma clean_counts_sample:
  assumes "to_numeric_text L ''bad'' = None"
  shows "clean_counts L [IVal 120, IVal 95, IVal 50, SVal ''bad''] = Inr [120, 95, 50, 0]"
  using assms
  by (simp add: clean_counts_def to_numeric_col_def astype_int_col_def fillna_def
      float64_of_int_small astype_int_def map_filter_simps)

lemma cleaned_sample:
  assumes "to_numeric_text L ''bad'' = None"
  shows "cleaned L [SVal ''#ai'', SVal ''#ai '', SVal '' '', SVal ''#ml''] [IVal 120, IVal 95, IVal 50, SVal ''bad''] =
     Inr [(0, Some ''#ai'', 120), (1, Some ''#ai'', 95), (2, Some [], 50), (3, Some ''#ml'', 0)]"
  by (simp add: cleaned_def clean_counts_sample [OF assms] clean_hashtag_def strip_ex upt4)

lemma filtered_sample:
  assumes "to_numeric_text L ''bad'' = None"
  shows "filtered L sample_sheet =
     Inr [\<lparr>idx = 0, Hashtag = ''#ai'', Count = 120\<rparr>,
          \<lparr>idx = 1, Hashtag = ''#ai'', Count = 95\<rparr>,
          \<lparr>idx = 3, Hashtag = ''#ml'', Count = 0\<rparr>]"
  by (simp add: filtered_def find_columns_sample select2_sample cleaned_sample [OF assms]
      drop_empty_def map_filter_simps)

lemma sample_lib_simps:
  "to_numeric_text sample_lib = plain_decimal" "argsort sample_lib = insertion_argsort"
  "nan_str sample_lib = Some ''nan''"
  by (simp_all add: sample_lib_def)

lemma argsort_ok_sample: "argsort_ok (argsort sample_lib)"
  by (simp add: sample_lib_simps argsort_ok_insertion)

lemma argsort_ok_simd_lib: "argsort_ok (argsort simd_lib)"
  by (simp add: simd_lib_def argsort_ok_simd)

lemma plain_decimal_bad: "plain_decimal ''bad'' = None" by code_simp




lemma find_columns_nan: "find_columns nan_sheet = Inr (''Hashtag'', ''Count'')"
  by code_simp

lemma select2_nan:
  "select2 nan_sheet ''Hashtag'' ''Count'' = Inr ([NaN, SVal ''#a''], [IVal 7, IVal 3])"
  by code_simp

lemma find_columns_negative: "find_columns negative_sheet = Inr (''Hashtag'', ''Count'')"
  by code_simp

lemma select2_negative:
  "select2 negative_sheet ''Hashtag'' ''Count'' = Inr ([SVal ''#a''], [IVal (- 5)])"
  by code_simp

lemma cols_lower_tag:
  "cols_lower (map fst tag_sheet) Map.empty = Inr [''tag'' \<mapsto> ''Tag'', ''count'' \<mapsto> ''Count'']"
  by (simp add: tag_sheet_def lower_tag lower_ex)

lemma sample_sheet_normalized:
  "normalize sample_lib sample_sheet =
     Inr [\<lparr>idx = 0, Hashtag = ''#ai'', Count = 120\<rparr>,
          \<lparr>idx = 1, Hashtag = ''#ai'', Count = 95\<rparr>,
          \<lparr>idx = 2, Hashtag = ''#ml'', Count = 0\<rparr>]"
  by code_simp

lemma twelve_normalized:
  "normalize twelve_lib twelve_sheet =
    Inr [\<lparr>idx = 0, Hashtag = ''#t1'', Count = 99\<rparr>,
      \<lparr>idx = 1, Hashtag = ''#t2'', Count = 98\<rparr>,
      \<lparr>idx = 2, Hashtag = ''#t3'', Count = 97\<rparr>,
      \<lparr>idx = 3, Hashtag = ''#t4'', Count = 96\<rparr>,
      \<lparr>idx = 4, Hashtag = ''#t5'', Count = 95\<rparr>,
      \<lparr>idx = 5, Hashtag = ''#t6'', Count = 94\<rparr>,
      \<lparr>idx = 6, Hashtag = ''#t7'', Count = 93\<rparr>,
      \<lparr>idx = 7, Hashtag = ''#t8'', Count = 92\<rparr>,
      \<lparr>idx = 8, Hashtag = ''#t9'', Count = 91\<rparr>,
      \<lparr>idx = 9, Hashtag = ''#t10'', Count = 90\<rparr>,
      \<lparr>idx = 10, Hashtag = ''#t11'', Count = 89\<rparr>,
      \<lparr>idx = 11, Hashtag = ''#t12'', Count = 88\<rparr>]"
  by code_simp

lemma twelve_run: "fst (main twelve_lib ''data/top_hashtags.xlsx'' None ''outputs'' empty_fs) = Inr ()"
  by code_simp

lemma twelve_lib_simps:
  "read_excel twelve_lib p s = Inr twelve_sheet" "to_markdown twelve_lib = md_plain"
  by (simp_all add: twelve_lib_def sample_lib_def)

lemma outputs_paths:
  "path_join ''outputs'' ''REPORT.md'' = ''outputs/REPORT.md''"
  "path_join ''outputs'' ''top_hashtags_cleaned.csv'' = ''outputs/top_hashtags_cleaned.csv''"
  by (simp_all add: path_join_def)

lemma sample_csv:
  "files (snd (main sample_lib ''data/top_hashtags.xlsx'' None ''outputs'' empty_fs))
      ''outputs/top_hashtags_cleaned.csv''
     = Some (''Hashtag,Count'' @ nl @ ''#ai,120'' @ nl @ ''#ai,95'' @ nl @ ''#ml,0'' @ nl)"
  by code_simp

lemma upper_normalized:
  "normalize sample_lib upper_sheet =
     Inr [\<lparr>idx = 0, Hashtag = ''#ai'', Count = 120\<rparr>,
          \<lparr>idx = 1, Hashtag = ''#ai'', Count = 95\<rparr>,
          \<lparr>idx = 2, Hashtag = ''#ml'', Count = 0\<rparr>]"
  by code_simp

lemma upper_names:
  "map (\<lambda>x. lower_name (fst x)) upper_sheet = map (\<lambda>x. lower_name (fst x)) sample_sheet"
  by code_simp

section \<open>The claims\<close>

subsection \<open>Claim C1: order of the normalized table\<close>

text \<open>
  Claim C1, as far as the code goes: when \<^verbatim>\<open>argsort\<close> sorts \<^verbatim>\<open>int64\<close> keys, the normalized
  table holds the rows left by the filter, each as often as there, in descending order
  of count, and its index is 0, 1, 2, ... The order among rows of equal count is the
  one the sorting algorithm leaves: the call does not ask for a stable algorithm.
\<close>

theorem normalize_sorted_desc:
  assumes "argsort_ok (argsort L)" and "normalize L df = Inr t"
  shows "\<exists>u. filtered L df = Inr u
           \<and> mset (values_of t) = mset (values_of u)
           \<and> sorted_wrt (\<lambda>a b. Count b \<le> Count a) t
           \<and> map idx t = [0..<length t]"
proof -
  from assms(2) obtain u where u: "filtered L df = Inr u"
    and t: "t = reset_index (sort_values_desc L u)"
    unfolding normalize_Inr by blast
  have r: "list_all (\<lambda>r. int64 (Count r)) u"
    using u by (rule filtered_int64)
  have m: "mset (sort_values_desc L u) = mset u"
    by (rule sort_values_desc_int64(1) [OF assms(1) r])
  have s: "sorted_wrt (\<lambda>a b. Count b \<le> Count a) (sort_values_desc L u)"
    by (rule sort_values_desc_int64(2) [OF assms(1) r])
  have "mset (values_of t) = mset (values_of u)"
    unfolding t values_of_reset_index using m by (rule mset_values_of)
  moreover have "sorted_wrt (\<lambda>a b. Count b \<le> Count a) t"
    unfolding t sorted_desc_reset_index by (rule s)
  moreover have "map idx t = [0..<length t]"
    unfolding t by (simp only: map_idx_reset_index length_reset_index)
  ultimately show ?thesis using u by blast
qed

text \<open>
  An instance of the theorem, on the sample sheet.
\<close>

theorem normalize_sorted_desc_witness:
  "argsort_ok (argsort sample_lib)
   \<and> normalize sample_lib sample_sheet =
       Inr [\<lparr>idx = 0, Hashtag = ''#ai'', Count = 120\<rparr>,
            \<lparr>idx = 1, Hashtag = ''#ai'', Count = 95\<rparr>,
            \<lparr>idx = 2, Hashtag = ''#ml'', Count = 0\<rparr>]
   \<and> (\<exists>u. filtered sample_lib sample_sheet = Inr u
         \<and> mset (values_of [\<lparr>idx = 0, Hashtag = ''#ai'', Count = 120\<rparr>,
                             \<lparr>idx = 1, Hashtag = ''#ai'', Count = 95\<rparr>,
                             \<lparr>idx = 2, Hashtag = ''#ml'', Count = 0\<rparr>])
             = mset (values_of u)
         \<and> sorted_wrt (\<lambda>a b. Count b \<le> Count a)
             [\<lparr>idx = 0, Hashtag = ''#ai'', Count = 120\<rparr>,
              \<lparr>idx = 1, Hashtag = ''#ai'', Count = 95\<rparr>,
              \<lparr>idx = 2, Hashtag = ''#ml'', Count = 0\<rparr>]
         \<and> map idx [\<lparr>idx = 0, Hashtag = ''#ai'', Count = 120\<rparr>,
                     \<lparr>idx = 1, Hashtag = ''#ai'', Count = 95\<rparr>,
                     \<lparr>idx = 2, Hashtag = ''#ml'', Count = 0\<rparr>]
             = [0..<length [\<lparr>idx = 0, Hashtag = ''#ai'', Count = 120\<rparr>,
                            \<lparr>idx = 1, Hashtag = ''#ai'', Count = 95\<rparr>,
                            \<lparr>idx = 2, Hashtag = ''#ml'', Count = 0\<rparr>]])"
proof -
  note a = argsort_ok_sample and c = sample_sheet_normalized
  from a c normalize_sorted_desc [OF a c] show ?thesis by (intro conjI)
qed

text \<open>
  Claim C1 as stated fails on a sheet of four rows with the counts 1, 1, 2, 2, when
  NumPy sorts with vector instructions: the filter leaves the rows in the order
  \<^verbatim>\<open>#a\<close>, \<^verbatim>\<open>#b\<close>, \<^verbatim>\<open>#c\<close>, \<^verbatim>\<open>#d\<close>, and the normalized table has \<^verbatim>\<open>#d\<close> before \<^verbatim>\<open>#c\<close> and
  \<^verbatim>\<open>#b\<close> before \<^verbatim>\<open>#a\<close>, although that \<^verbatim>\<open>argsort\<close> sorts. The keys reach it as 2, 2, 1, 1;
  the network exchanges the first with the fourth and the second with the third, so
  it returns the positions 3, 2, 1, 0, and equal keys have changed places.
\<close>

theorem stable_sort_counterexample:
  "argsort_ok (argsort simd_lib)
   \<and> filtered simd_lib ties_sheet =
       Inr [\<lparr>idx = 0, Hashtag = ''#a'', Count = 1\<rparr>, \<lparr>idx = 1, Hashtag = ''#b'', Count = 1\<rparr>,
            \<lparr>idx = 2, Hashtag = ''#c'', Count = 2\<rparr>, \<lparr>idx = 3, Hashtag = ''#d'', Count = 2\<rparr>]
   \<and> argsort simd_lib [2, 2, 1, 1] = [3, 2, 1, 0]
   \<and> normalize simd_lib ties_sheet =
       Inr [\<lparr>idx = 0, Hashtag = ''#d'', Count = 2\<rparr>, \<lparr>idx = 1, Hashtag = ''#c'', Count = 2\<rparr>,
            \<lparr>idx = 2, Hashtag = ''#b'', Count = 1\<rparr>, \<lparr>idx = 3, Hashtag = ''#a'', Count = 1\<rparr>]"
proof -
  have a: "filtered simd_lib ties_sheet =
       Inr [\<lparr>idx = 0, Hashtag = ''#a'', Count = 1\<rparr>, \<lparr>idx = 1, Hashtag = ''#b'', Count = 1\<rparr>,
            \<lparr>idx = 2, Hashtag = ''#c'', Count = 2\<rparr>, \<lparr>idx = 3, Hashtag = ''#d'', Count = 2\<rparr>]"
    by code_simp
  have b: "argsort simd_lib [2, 2, 1, 1] = [3, 2, 1, 0]"
    by code_simp
  have c: "normalize simd_lib ties_sheet =
       Inr [\<lparr>idx = 0, Hashtag = ''#d'', Count = 2\<rparr>, \<lparr>idx = 1, Hashtag = ''#c'', Count = 2\<rparr>,
            \<lparr>idx = 2, Hashtag = ''#b'', Count = 1\<rparr>, \<lparr>idx = 3, Hashtag = ''#a'', Count = 1\<rparr>]"
    by code_simp
  from argsort_ok_simd_lib a b c show ?thesis by (intro conjI)
qed


subsection \<open>Claim C2: counts are integers\<close>





subsection \<open>Claim C3: the sample sheet\<close>

text \<open>
  Claim C3: the sheet with columns \<^verbatim>\<open>Hashtag\<close>, \<^verbatim>\<open>Count\<close> and the rows
  \<^verbatim>\<open>("#ai", 120), ("#ai ", 95), (" ", 50), ("#ml", "bad")\<close> normalizes to
  \<^verbatim>\<open>("#ai", 120), ("#ai", 95), ("#ml", 0)\<close>, whatever the library does with ties, as
  long as it does not read \<^verbatim>\<open>bad\<close> as a number.
\<close>

theorem sample_normalized:
  assumes "sorts_desc (sort_values_desc L)" and "to_numeric_text L ''bad'' = None"
  shows "normalize L sample_sheet =
     Inr [\<lparr>idx = 0, Hashtag = ''#ai'', Count = 120\<rparr>,
          \<lparr>idx = 1, Hashtag = ''#ai'', Count = 95\<rparr>,
          \<lparr>idx = 2, Hashtag = ''#ml'', Count = 0\<rparr>]"
proof -
  let ?u = "[\<lparr>idx = 0, Hashtag = ''#ai'', Count = 120\<rparr>,
          \<lparr>idx = 1, Hashtag = ''#ai'', Count = 95\<rparr>,
          \<lparr>idx = 3, Hashtag = ''#ml'', Count = 0\<rparr>]"
  have f: "filtered L sample_sheet = Inr ?u"
    by (rule filtered_sample) (rule assms(2))
  have m: "mset (sort_values_desc L ?u) = mset ?u"
    by (rule sorts_descD(1) [OF assms(1)])
  have s: "sorted_wrt (\<lambda>a b. Count b \<le> Count a) (sort_values_desc L ?u)"
    by (rule sorts_descD(2) [OF assms(1)])
  have d: "sorted_wrt (\<lambda>a b. Count b < Count a) ?u" by simp
  from s d m have "sort_values_desc L ?u = ?u" by (rule desc_unique)
  then show ?thesis
    by (simp add: normalize_def f reset_index_3)
qed

text \<open>
  An instance of the theorem, on a sample sheet.
\<close>

theorem sample_normalized_witness:
  "sorts_desc (sort_values_desc sample_lib) \<and> to_numeric_text sample_lib ''bad'' = None \<and>
   normalize sample_lib sample_sheet =
     Inr [\<lparr>idx = 0, Hashtag = ''#ai'', Count = 120\<rparr>,
          \<lparr>idx = 1, Hashtag = ''#ai'', Count = 95\<rparr>,
          \<lparr>idx = 2, Hashtag = ''#ml'', Count = 0\<rparr>]"
proof -
  note a = sorts_desc_sample
  have b: "to_numeric_text sample_lib ''bad'' = None"
    by (simp add: sample_lib_simps plain_decimal_bad)
  from a b sample_normalized [OF a b] show ?thesis by (intro conjI)
qed


subsection \<open>Claim C4: a missing column\<close>

text \<open>
  Claim C4: when the lookup from lowered column names lacks \<^verbatim>\<open>hashtag\<close> or \<^verbatim>\<open>count\<close>,
  normalization fails with the \<^verbatim>\<open>ValueError\<close> that carries all the columns of the sheet,
  and the run ends with an error without having written a file: that error, unless the
  output directory could not be made before.
\<close>

theorem missing_column_fails:
  assumes lookup: "cols_lower (map fst df) Map.empty = Inr m"
    and missing: "m ''hashtag'' = None \<or> m ''count'' = None"
    and load: "read_excel L input_path (sheet_of sheet_name) = Inr df"
  shows "normalize L df = Inl (ValueError (map fst df))
     \<and> (\<exists>e fs'. main L input_path sheet_name outdir fs = (Inl e, fs')
           \<and> files fs' = files fs
           \<and> (e = ValueError (map fst df) \<or> makedirs outdir fs = Inl e))"
proof -
  have n: "normalize L df = Inl (ValueError (map fst df))"
    using lookup missing by (rule normalize_missing)
  have "\<exists>e fs'. main L input_path sheet_name outdir fs = (Inl e, fs')
           \<and> files fs' = files fs
           \<and> (e = ValueError (map fst df) \<or> makedirs outdir fs = Inl e)"
  proof (cases "makedirs outdir fs")
    case (Inl e)
    then show ?thesis by (simp add: main_def)
  next
    case (Inr fs1)
    then have "files fs1 = files fs" by (rule makedirs_files)
    then show ?thesis by (simp add: main_def Inr load n)
  qed
  with n show ?thesis by simp
qed

text \<open>
  An instance of the theorem, on a sample sheet.
\<close>

theorem missing_column_fails_witness:
  "cols_lower (map fst tag_sheet) Map.empty = Inr [''tag'' \<mapsto> ''Tag'', ''count'' \<mapsto> ''Count'']
   \<and> [''tag'' \<mapsto> ''Tag'', ''count'' \<mapsto> ''Count''] ''hashtag'' = None
   \<and> read_excel tag_lib ''data/top_hashtags.xlsx'' (sheet_of None) = Inr tag_sheet
   \<and> normalize tag_lib tag_sheet = Inl (ValueError [Name ''Tag'', Name ''Count''])
   \<and> fst (main tag_lib ''data/top_hashtags.xlsx'' None ''outputs'' empty_fs)
       = Inl (ValueError [Name ''Tag'', Name ''Count''])
   \<and> files (snd (main tag_lib ''data/top_hashtags.xlsx'' None ''outputs'' empty_fs)) = Map.empty"
proof -
  let ?m = "[''tag'' \<mapsto> ''Tag'', ''count'' \<mapsto> ''Count'']"
  note a = cols_lower_tag
  have b: "?m ''hashtag'' = None" by simp
  then have b': "?m ''hashtag'' = None \<or> ?m ''count'' = None" by (rule disjI1)
  have c: "read_excel tag_lib ''data/top_hashtags.xlsx'' (sheet_of None) = Inr tag_sheet"
    by (simp add: tag_lib_def)
  have cols: "map fst tag_sheet = [Name ''Tag'', Name ''Count'']"
    by (simp add: tag_sheet_def)
  have mk: "makedirs ''outputs'' empty_fs \<noteq> Inl (ValueError [Name ''Tag'', Name ''Count''])"
    by (simp add: makedirs_def empty_fs_def)
  from missing_column_fails [OF a b' c, where outdir = "''outputs''" and fs = empty_fs]
  have "normalize tag_lib tag_sheet = Inl (ValueError [Name ''Tag'', Name ''Count''])
   \<and> fst (main tag_lib ''data/top_hashtags.xlsx'' None ''outputs'' empty_fs)
       = Inl (ValueError [Name ''Tag'', Name ''Count''])
   \<and> files (snd (main tag_lib ''data/top_hashtags.xlsx'' None ''outputs'' empty_fs)) = Map.empty"
    unfolding cols using mk by (auto simp: empty_fs_def makedirs_def)
  with a b c show ?thesis by simp
qed


subsection \<open>Claim C5: letter case of the column names\<close>

text \<open>
  Claim C5: two sheets with the same cells whose column names differ only in letter
  case (as loaded, so no sheet has two columns of the same name) normalize to the same
  table, under the column names \<^verbatim>\<open>Hashtag\<close> and \<^verbatim>\<open>Count\<close> that every normalized table has.
\<close>

theorem column_case_irrelevant:
  assumes names: "map (\<lambda>x. lower_name (fst x)) df1 = map (\<lambda>x. lower_name (fst x)) df2"
    and cells: "map snd df1 = map snd df2"
    and d1: "distinct (map fst df1)" and d2: "distinct (map fst df2)"
    and ok: "normalize L df1 = Inr t"
  shows "normalize L df2 = Inr t"
proof -
  let ?F = "\<lambda>k df. filter (\<lambda>x. lower_name (fst x) = Name k) df"
  from ok obtain h1 c1 hs cs fr
    where fc1: "find_columns df1 = Inr (h1, c1)"
      and sel1: "select2 df1 h1 c1 = Inr (hs, cs)"
      and cl: "cleaned L hs cs = Inr fr"
      and t: "t = reset_index (sort_values_desc L (drop_empty fr))"
    unfolding normalize_Inr filtered_Inr by blast
  from fc1 obtain m1 where cl1: "cols_lower (map fst df1) Map.empty = Inr m1"
    and mh1: "m1 ''hashtag'' = Some h1" and mc1: "m1 ''count'' = Some c1"
    unfolding find_columns_Inr by blast
  from resolve_column [OF cl1 d1 mh1]
  have neh1: "?F ''hashtag'' df1 \<noteq> []"
    and gh1: "getcols df1 h1 = [last (map snd (?F ''hashtag'' df1))]" by simp_all
  from resolve_column [OF cl1 d1 mc1]
  have nec1: "?F ''count'' df1 \<noteq> []"
    and gc1: "getcols df1 c1 = [last (map snd (?F ''count'' df1))]" by simp_all
  from sel1 have hs: "hs = last (map snd (?F ''hashtag'' df1))"
    and cs: "cs = last (map snd (?F ''count'' df1))"
    by (simp_all add: select2_def gh1 gc1)
  have corr: "map snd (?F k df1) = map snd (?F k df2)" for k
    using names cells by (rule filter_case_corr)
  have neh2: "?F ''hashtag'' df2 \<noteq> []" using neh1 corr [of "''hashtag''"] by (metis map_is_Nil_conv)
  have nec2: "?F ''count'' df2 \<noteq> []" using nec1 corr [of "''count''"] by (metis map_is_Nil_conv)
  from cols_lower_names [OF cl1] same_case_all_names [OF names]
  have "\<forall>n\<in>set (map fst df2). \<exists>c. n = Name c" by blast
  from cols_lower_ok [OF this] obtain m2
    where cl2: "cols_lower (map fst df2) Map.empty = Inr m2" by blast
  from lookup_Some [OF cl2 neh2] obtain h2
    where mh2: "m2 ''hashtag'' = Some h2" and lh2: "lower h2 = ''hashtag''" by blast
  from lookup_Some [OF cl2 nec2] obtain c2
    where mc2: "m2 ''count'' = Some c2" and lc2: "lower c2 = ''count''" by blast
  from lh2 have "h2 \<noteq> []" by (auto simp: lower_def)
  moreover from lc2 have "c2 \<noteq> []" by (auto simp: lower_def)
  ultimately have fc2: "find_columns df2 = Inr (h2, c2)"
    unfolding find_columns_Inr using cl2 mh2 mc2 by blast
  from resolve_column [OF cl2 d2 mh2]
  have gh2: "getcols df2 h2 = [hs]" by (simp add: hs corr)
  from resolve_column [OF cl2 d2 mc2]
  have gc2: "getcols df2 c2 = [cs]" by (simp add: cs corr)
  have sel2: "select2 df2 h2 c2 = Inr (hs, cs)" by (simp add: select2_def gh2 gc2)
  show ?thesis unfolding t by (simp add: normalize_of_columns [OF fc2 sel2] cl)
qed

text \<open>
  An instance of the theorem, on a sample sheet.
\<close>

theorem column_case_irrelevant_witness:
  "map (\<lambda>x. lower_name (fst x)) upper_sheet = map (\<lambda>x. lower_name (fst x)) sample_sheet
   \<and> map snd upper_sheet = map snd sample_sheet
   \<and> distinct (map fst upper_sheet) \<and> distinct (map fst sample_sheet)
   \<and> normalize sample_lib upper_sheet =
       Inr [\<lparr>idx = 0, Hashtag = ''#ai'', Count = 120\<rparr>,
            \<lparr>idx = 1, Hashtag = ''#ai'', Count = 95\<rparr>,
            \<lparr>idx = 2, Hashtag = ''#ml'', Count = 0\<rparr>]
   \<and> normalize sample_lib sample_sheet =
       Inr [\<lparr>idx = 0, Hashtag = ''#ai'', Count = 120\<rparr>,
            \<lparr>idx = 1, Hashtag = ''#ai'', Count = 95\<rparr>,
            \<lparr>idx = 2, Hashtag = ''#ml'', Count = 0\<rparr>]"
proof -
  note a = upper_names
  have b: "map snd upper_sheet = map snd sample_sheet"
    by (simp add: upper_sheet_def sample_sheet_def)
  have c: "distinct (map fst upper_sheet)" by (simp add: upper_sheet_def)
  have d: "distinct (map fst sample_sheet)" by (simp add: sample_sheet_def)
  note e = upper_normalized
  from a b c d e column_case_irrelevant [OF a b c d e] show ?thesis by (intro conjI)
qed


subsection \<open>Claim C6: a count that is not a number\<close>





subsection \<open>Claim C7: no empty label\<close>

text \<open>
  Claim C7: no row of the normalized table has a label that is empty after stripping,
  and the table holds exactly the cleaned rows that have a label and whose label is not
  empty after stripping: the others are dropped.
\<close>

theorem no_empty_labels:
  assumes srt: "sorts_desc (sort_values_desc L)"
    and fc: "find_columns df = Inr (h, c)"
    and sel: "select2 df h c = Inr (hs, cs)"
    and norm: "normalize L df = Inr t"
  shows "list_all (\<lambda>r. strip (Hashtag r) \<noteq> []) t
     \<and> (\<exists>fr. cleaned L hs cs = Inr fr
          \<and> mset (values_of t) = mset [(l, n). (i, Some l, n) \<leftarrow> fr, strip l \<noteq> []])"
proof -
  from norm obtain fr where cl: "cleaned L hs cs = Inr fr"
    and t: "t = reset_index (sort_values_desc L (drop_empty fr))"
    by (auto simp: normalize_of_columns [OF fc sel] split: sum.splits)
  from cl obtain counts
    where fr: "fr = zip [0..<length hs] (zip (map (clean_hashtag L (dtype_of hs)) hs) counts)"
    unfolding cleaned_Inr by blast
  have idem: "strip l = l" if "(i, Some l, n) \<in> set fr" for i l n
  proof -
    from frame_set [OF that [unfolded fr]]
    have "Some l = clean_hashtag L (dtype_of hs) (hs ! i)" by simp
    then obtain s where "l = strip s"
      unfolding clean_hashtag_def by (cases "astype_str L (dtype_of hs) (hs ! i)") auto
    then show ?thesis by (simp add: strip_strip)
  qed
  have sd: "mset (sort_values_desc L (drop_empty fr)) = mset (drop_empty fr)"
    by (rule sorts_descD(1) [OF srt])
  have "strip (Hashtag r) \<noteq> []" if "r \<in> set t" for r
  proof -
    from that normalized_row_origin [OF sd] obtain i
      where "(i, Some (Hashtag r), Count r) \<in> set fr" and "Hashtag r \<noteq> []"
      unfolding t by blast
    with idem [of i "Hashtag r" "Count r"] show ?thesis by simp
  qed
  then have a: "list_all (\<lambda>r. strip (Hashtag r) \<noteq> []) t" by (simp add: list_all_iff)
  have "[(l, n). (i, Some l, n) \<leftarrow> xs, strip l \<noteq> []] = [(l, n). (i, Some l, n) \<leftarrow> xs, l \<noteq> []]"
    if "set xs \<subseteq> set fr" for xs
    using that
  proof (induction xs)
    case Nil
    show ?case by simp
  next
    case (Cons x xs)
    then have IH: "[(l, n). (i, Some l, n) \<leftarrow> xs, strip l \<noteq> []]
        = [(l, n). (i, Some l, n) \<leftarrow> xs, l \<noteq> []]" by simp
    from Cons.prems have x: "x \<in> set fr" by simp
    show ?case
    proof (cases x rule: keep_row.cases)
      case (1 i n)
      then show ?thesis using IH by simp
    next
      case (2 i l n)
      with x idem [of i l n] have "strip l = l" by simp
      then show ?thesis using 2 IH by simp
    qed
  qed
  then have "[(l, n). (i, Some l, n) \<leftarrow> fr, strip l \<noteq> []] = values_of (drop_empty fr)"
    by (simp add: values_of_drop_empty)
  moreover have "mset (values_of t) = mset (values_of (drop_empty fr))"
    unfolding t values_of_reset_index
    by (rule mset_values_of) (rule sorts_descD(1) [OF srt])
  ultimately have b: "mset (values_of t) = mset [(l, n). (i, Some l, n) \<leftarrow> fr, strip l \<noteq> []]"
    by simp
  from a cl b show ?thesis by blast
qed

text \<open>
  An instance of the theorem, on a sample sheet.
\<close>

theorem no_empty_labels_witness:
  "sorts_desc (sort_values_desc sample_lib)
   \<and> find_columns sample_sheet = Inr (''Hashtag'', ''Count'')
   \<and> select2 sample_sheet ''Hashtag'' ''Count'' =
       Inr ([SVal ''#ai'', SVal ''#ai '', SVal '' '', SVal ''#ml''],
            [IVal 120, IVal 95, IVal 50, SVal ''bad''])
   \<and> normalize sample_lib sample_sheet =
       Inr [\<lparr>idx = 0, Hashtag = ''#ai'', Count = 120\<rparr>,
            \<lparr>idx = 1, Hashtag = ''#ai'', Count = 95\<rparr>,
            \<lparr>idx = 2, Hashtag = ''#ml'', Count = 0\<rparr>]
   \<and> list_all (\<lambda>r. strip (Hashtag r) \<noteq> [])
       [\<lparr>idx = 0, Hashtag = ''#ai'', Count = 120\<rparr>,
        \<lparr>idx = 1, Hashtag = ''#ai'', Count = 95\<rparr>,
        \<lparr>idx = 2, Hashtag = ''#ml'', Count = 0\<rparr>]"
proof -
  note a = sorts_desc_sample and b = find_columns_sample and c = select2_sample
    and d = sample_sheet_normalized
  from no_empty_labels [OF a b c d]
  have e: "list_all (\<lambda>r. strip (Hashtag r) \<noteq> [])
       [\<lparr>idx = 0, Hashtag = ''#ai'', Count = 120\<rparr>,
        \<lparr>idx = 1, Hashtag = ''#ai'', Count = 95\<rparr>,
        \<lparr>idx = 2, Hashtag = ''#ml'', Count = 0\<rparr>]"
    by (rule conjunct1)
  from a b c d e show ?thesis by (intro conjI)
qed


subsection \<open>Claim C8: running twice\<close>

text \<open>
  Claim C8: a second run with the same arguments, on the files the first run left,
  ends as the first did and leaves the same content in \<^verbatim>\<open>top_hashtags_cleaned.csv\<close>;
  after a run that succeeded, that content is the serialised normalized table of the
  sheet, whatever the files were before.
\<close>

theorem rerun_same_csv:
  assumes run1: "main L input_path sheet_name outdir fs = (r1, fs1)"
    and run2: "main L input_path sheet_name outdir fs1 = (r2, fs2)"
  shows "r2 = r1
     \<and> files fs2 (path_join outdir ''top_hashtags_cleaned.csv'')
         = files fs1 (path_join outdir ''top_hashtags_cleaned.csv'')
     \<and> (r1 = Inr () \<longrightarrow>
          (\<exists>df0 df. read_excel L input_path (sheet_of sheet_name) = Inr df0
             \<and> normalize L df0 = Inr df
             \<and> files fs1 (path_join outdir ''top_hashtags_cleaned.csv'') = Some (to_csv L df)))"
proof -
  have "main L input_path sheet_name outdir fs1 = main L input_path sheet_name outdir fs"
    using main_idempotent [of L input_path sheet_name outdir fs] by (simp add: run1)
  then have same: "r2 = r1" "fs2 = fs1" using run1 run2 by simp_all
  have "\<exists>df0 df. read_excel L input_path (sheet_of sheet_name) = Inr df0
             \<and> normalize L df0 = Inr df
             \<and> files fs1 (path_join outdir ''top_hashtags_cleaned.csv'') = Some (to_csv L df)"
    if "r1 = Inr ()"
  proof -
    from run1 that have "main L input_path sheet_name outdir fs = (Inr (), fs1)" by simp
    from main_success [OF this] obtain fs0 df0 df bar pie
      where rd: "read_excel L input_path (sheet_of sheet_name) = Inr df0"
        and nm: "normalize L df0 = Inr df"
        and fs1: "fs1 = write_file (path_join outdir ''REPORT.md'') (report L df)
             (write_file (path_join outdir ''top_hashtags_pie.png'') pie
             (write_file (path_join outdir ''top_hashtags_bar.png'') bar
             (write_file (path_join outdir ''top_hashtags_cleaned.csv'') (to_csv L df) fs0)))"
      by blast
    have "files fs1 (path_join outdir ''top_hashtags_cleaned.csv'') = Some (to_csv L df)"
      unfolding fs1 by (simp add: write_file_files path_join_inj)
    with rd nm show ?thesis by blast
  qed
  with same show ?thesis by simp
qed

text \<open>
  An instance of the theorem, on a sample sheet.
\<close>

theorem rerun_same_csv_witness:
  "fst (main sample_lib ''data/top_hashtags.xlsx'' None ''outputs''
          (snd (main sample_lib ''data/top_hashtags.xlsx'' None ''outputs'' empty_fs)))
     = fst (main sample_lib ''data/top_hashtags.xlsx'' None ''outputs'' empty_fs)
   \<and> files (snd (main sample_lib ''data/top_hashtags.xlsx'' None ''outputs''
          (snd (main sample_lib ''data/top_hashtags.xlsx'' None ''outputs'' empty_fs))))
        ''outputs/top_hashtags_cleaned.csv''
     = files (snd (main sample_lib ''data/top_hashtags.xlsx'' None ''outputs'' empty_fs))
        ''outputs/top_hashtags_cleaned.csv''
   \<and> files (snd (main sample_lib ''data/top_hashtags.xlsx'' None ''outputs'' empty_fs))
        ''outputs/top_hashtags_cleaned.csv''
     = Some (''Hashtag,Count'' @ nl @ ''#ai,120'' @ nl @ ''#ai,95'' @ nl @ ''#ml,0'' @ nl)"
proof -
  let ?run1 = "main sample_lib ''data/top_hashtags.xlsx'' None ''outputs'' empty_fs"
  let ?run2 = "main sample_lib ''data/top_hashtags.xlsx'' None ''outputs'' (snd ?run1)"
  have a: "?run1 = (fst ?run1, snd ?run1)" by simp
  have b: "?run2 = (fst ?run2, snd ?run2)" by simp
  from rerun_same_csv [OF a b] sample_csv show ?thesis
    by (simp only: outputs_paths)
qed


subsection \<open>Claim C9: the report\<close>

text \<open>
  Claim C9: after a run that succeeded, \<^verbatim>\<open>REPORT.md\<close> holds a first-level heading, a
  second-level heading, the table of the first ten rows of the normalized table (all of
  them when there are fewer; all but the last two when there are twelve), in table
  order, and the section that refers to the two chart files, which are in the same
  directory.
\<close>

theorem report_written:
  assumes "main L input_path sheet_name outdir fs = (Inr (), fs')"
  shows "\<exists>df0 df. read_excel L input_path (sheet_of sheet_name) = Inr df0
     \<and> normalize L df0 = Inr df
     \<and> files fs' (path_join outdir ''REPORT.md'')
         = Some (title_line @ preview_heading @ to_markdown L (take 10 df) @ charts_section)
     \<and> prefix ''# '' title_line
     \<and> prefix ''## '' preview_heading
     \<and> charts_section = nl @ nl @ ''## Charts'' @ nl @ nl
           @ ''![Bar Chart](./top_hashtags_bar.png)'' @ nl @ nl
           @ ''![Pie Chart](./top_hashtags_pie.png)'' @ nl
     \<and> length (take 10 df) = min 10 (length df)
     \<and> prefix (take 10 df) df
     \<and> (length df = 12 \<longrightarrow> take 10 df = butlast (butlast df))
     \<and> path_join outdir ''top_hashtags_bar.png'' \<in> dom (files fs')
     \<and> path_join outdir ''top_hashtags_pie.png'' \<in> dom (files fs')"
proof -
  from main_success [OF assms] obtain fs0 df0 df bar pie
    where rd: "read_excel L input_path (sheet_of sheet_name) = Inr df0"
      and nm: "normalize L df0 = Inr df"
      and fs': "fs' = write_file (path_join outdir ''REPORT.md'') (report L df)
             (write_file (path_join outdir ''top_hashtags_pie.png'') pie
             (write_file (path_join outdir ''top_hashtags_bar.png'') bar
             (write_file (path_join outdir ''top_hashtags_cleaned.csv'') (to_csv L df) fs0)))"
    by blast
  have a: "files fs' (path_join outdir ''REPORT.md'')
         = Some (title_line @ preview_heading @ to_markdown L (take 10 df) @ charts_section)"
    unfolding fs' by (simp add: write_file_files report_def head_def)
  have b: "prefix ''# '' title_line" by (simp add: title_line_def)
  have c: "prefix ''## '' preview_heading" by (simp add: preview_heading_def)
  have d: "charts_section = nl @ nl @ ''## Charts'' @ nl @ nl
           @ ''![Bar Chart](./top_hashtags_bar.png)'' @ nl @ nl
           @ ''![Pie Chart](./top_hashtags_pie.png)'' @ nl"
    by (simp add: charts_section_def)
  have e: "length (take 10 df) = min 10 (length df)" by (simp add: min.commute)
  have f: "prefix (take 10 df) df" by (rule take_is_prefix)
  have g: "length df = 12 \<longrightarrow> take 10 df = butlast (butlast df)"
    by (simp add: butlast_conv_take)
  have h: "path_join outdir ''top_hashtags_bar.png'' \<in> dom (files fs')"
    "path_join outdir ''top_hashtags_pie.png'' \<in> dom (files fs')"
    unfolding fs' by (simp_all add: write_file_files)
  show ?thesis
    by (intro exI conjI) (rule rd nm a b c d e f g h)+
qed

text \<open>
  An instance of the theorem, on a sample sheet.
\<close>

theorem report_written_witness:
  "main twelve_lib ''data/top_hashtags.xlsx'' None ''outputs'' empty_fs
     = (Inr (), snd (main twelve_lib ''data/top_hashtags.xlsx'' None ''outputs'' empty_fs))
   \<and> files (snd (main twelve_lib ''data/top_hashtags.xlsx'' None ''outputs'' empty_fs))
        ''outputs/REPORT.md''
     = Some (title_line @ preview_heading
         @ md_plain
            [\<lparr>idx = 0, Hashtag = ''#t1'', Count = 99\<rparr>,
             \<lparr>idx = 1, Hashtag = ''#t2'', Count = 98\<rparr>,
             \<lparr>idx = 2, Hashtag = ''#t3'', Count = 97\<rparr>,
             \<lparr>idx = 3, Hashtag = ''#t4'', Count = 96\<rparr>,
             \<lparr>idx = 4, Hashtag = ''#t5'', Count = 95\<rparr>,
             \<lparr>idx = 5, Hashtag = ''#t6'', Count = 94\<rparr>,
             \<lparr>idx = 6, Hashtag = ''#t7'', Count = 93\<rparr>,
             \<lparr>idx = 7, Hashtag = ''#t8'', Count = 92\<rparr>,
             \<lparr>idx = 8, Hashtag = ''#t9'', Count = 91\<rparr>,
             \<lparr>idx = 9, Hashtag = ''#t10'', Count = 90\<rparr>]
         @ charts_section)"
proof -
  let ?run = "main twelve_lib ''data/top_hashtags.xlsx'' None ''outputs'' empty_fs"
  have m: "?run = (Inr (), snd ?run)"
    using twelve_run by (simp add: prod_eq_iff)
  from report_written [OF m] obtain df0 df
    where rd: "read_excel twelve_lib ''data/top_hashtags.xlsx'' (sheet_of None) = Inr df0"
      and nm: "normalize twelve_lib df0 = Inr df"
      and md: "files (snd ?run) (path_join ''outputs'' ''REPORT.md'')
         = Some (title_line @ preview_heading @ to_markdown twelve_lib (take 10 df) @ charts_section)"
    by blast
  from rd have "df0 = twelve_sheet" by (simp add: twelve_lib_simps)
  with nm have "df = [\<lparr>idx = 0, Hashtag = ''#t1'', Count = 99\<rparr>,
      \<lparr>idx = 1, Hashtag = ''#t2'', Count = 98\<rparr>,
      \<lparr>idx = 2, Hashtag = ''#t3'', Count = 97\<rparr>,
      \<lparr>idx = 3, Hashtag = ''#t4'', Count = 96\<rparr>,
      \<lparr>idx = 4, Hashtag = ''#t5'', Count = 95\<rparr>,
      \<lparr>idx = 5, Hashtag = ''#t6'', Count = 94\<rparr>,
      \<lparr>idx = 6, Hashtag = ''#t7'', Count = 93\<rparr>,
      \<lparr>idx = 7, Hashtag = ''#t8'', Count = 92\<rparr>,
      \<lparr>idx = 8, Hashtag = ''#t9'', Count = 91\<rparr>,
      \<lparr>idx = 9, Hashtag = ''#t10'', Count = 90\<rparr>,
      \<lparr>idx = 10, Hashtag = ''#t11'', Count = 89\<rparr>,
      \<lparr>idx = 11, Hashtag = ''#t12'', Count = 88\<rparr>]"
    by (simp add: twelve_normalized)
  with md have x: "files (snd ?run) ''outputs/REPORT.md''
     = Some (title_line @ preview_heading
         @ md_plain
            [\<lparr>idx = 0, Hashtag = ''#t1'', Count = 99\<rparr>,
             \<lparr>idx = 1, Hashtag = ''#t2'', Count = 98\<rparr>,
             \<lparr>idx = 2, Hashtag = ''#t3'', Count = 97\<rparr>,
             \<lparr>idx = 3, Hashtag = ''#t4'', Count = 96\<rparr>,
             \<lparr>idx = 4, Hashtag = ''#t5'', Count = 95\<rparr>,
             \<lparr>idx = 5, Hashtag = ''#t6'', Count = 94\<rparr>,
             \<lparr>idx = 6, Hashtag = ''#t7'', Count = 93\<rparr>,
             \<lparr>idx = 7, Hashtag = ''#t8'', Count = 92\<rparr>,
             \<lparr>idx = 8, Hashtag = ''#t9'', Count = 91\<rparr>,
             \<lparr>idx = 9, Hashtag = ''#t10'', Count = 90\<rparr>]
         @ charts_section)"
    by (simp add: twelve_lib_simps outputs_paths)
  from m x show ?thesis by (rule conjI)
qed


subsection \<open>Claim C10: a missing label\<close>

text \<open>
  Claim C10, as far as the code goes. What becomes of a row whose hashtag cell is
  missing depends on the pandas version. When \<^verbatim>\<open>astype(str)\<close> turns the missing value into
  the text \<^verbatim>\<open>nan\<close>, which is not empty, the row passes the filter and is in the
  normalized table under the label \<^verbatim>\<open>nan\<close>, provided normalization succeeds. When
  \<^verbatim>\<open>astype(str)\<close> leaves the value missing, the filter drops the row.
\<close>

theorem missing_label:
  assumes srt: "argsort_ok (argsort L)"
    and fc: "find_columns df = Inr (h, c)"
    and sel: "select2 df h c = Inr (hs, cs)"
    and ih: "i < length hs" and ic: "i < length cs"
    and nan: "hs ! i = NaN"
    and norm: "normalize L df = Inr t"
  shows "\<exists>u counts. filtered L df = Inr u \<and> clean_counts L cs = Inr counts
     \<and> mset (values_of t) = mset (values_of u)
     \<and> (nan_str L = Some ''nan'' \<longrightarrow>
          \<lparr>idx = i, Hashtag = ''nan'', Count = counts ! i\<rparr> \<in> set u
          \<and> (''nan'', counts ! i) \<in> set (values_of t))
     \<and> (nan_str L = None \<longrightarrow> i \<notin> idx ` set u)"
proof -
  from norm obtain fr where cl: "cleaned L hs cs = Inr fr"
    and t: "t = reset_index (sort_values_desc L (drop_empty fr))"
    by (auto simp: normalize_of_columns [OF fc sel] split: sum.splits)
  from cl obtain counts where cc: "clean_counts L cs = Inr counts"
    and fr: "fr = zip [0..<length hs] (zip (map (clean_hashtag L (dtype_of hs)) hs) counts)"
    unfolding cleaned_Inr by blast
  have sd: "mset (sort_values_desc L (drop_empty fr)) = mset (drop_empty fr)"
    unfolding fr by (rule sort_values_desc_int64(1) [OF srt drop_empty_int64 [OF cc]])
  have u: "filtered L df = Inr (drop_empty fr)"
    by (simp add: filtered_of_columns [OF fc sel] cl)
  have m: "mset (values_of t) = mset (values_of (drop_empty fr))"
    unfolding t values_of_reset_index
    by (rule mset_values_of) (rule sd)
  have p2: "nan_str L = Some ''nan'' \<longrightarrow>
          \<lparr>idx = i, Hashtag = ''nan'', Count = counts ! i\<rparr> \<in> set (drop_empty fr)
          \<and> (''nan'', counts ! i) \<in> set (values_of t)"
  proof
    assume "nan_str L = Some ''nan''"
    then have l: "clean_hashtag L (dtype_of hs) (hs ! i) = Some ''nan''"
      by (simp add: clean_hashtag_def nan strip_ex)
    have ne: "''nan'' \<noteq> []" by simp
    from row_kept [OF fc sel cc sd [unfolded fr] ih ic l ne] norm u
    show "\<lparr>idx = i, Hashtag = ''nan'', Count = counts ! i\<rparr> \<in> set (drop_empty fr)
          \<and> (''nan'', counts ! i) \<in> set (values_of t)"
      by auto
  qed
  have p3: "nan_str L = None \<longrightarrow> i \<notin> idx ` set (drop_empty fr)"
  proof
    assume none: "nan_str L = None"
    show "i \<notin> idx ` set (drop_empty fr)"
    proof
      assume "i \<in> idx ` set (drop_empty fr)"
      then obtain r where r: "r \<in> set (drop_empty fr)" and i: "i = idx r" by blast
      from r have "(idx r, Some (Hashtag r), Count r) \<in> set fr"
        by (simp add: in_drop_empty)
      from frame_set [OF this [unfolded fr]]
      have "Some (Hashtag r) = clean_hashtag L (dtype_of hs) (hs ! i)" by (simp add: i)
      then show False by (simp add: clean_hashtag_def nan none)
    qed
  qed
  show ?thesis
    by (intro exI conjI) (rule u cc m p2 p3)+
qed

text \<open>
  An instance of the theorem, with pandas 2: the first row of the sheet has no label
  and the count 7.
\<close>

theorem missing_label_witness:
  "argsort_ok (argsort sample_lib)
   \<and> find_columns nan_sheet = Inr (''Hashtag'', ''Count'')
   \<and> select2 nan_sheet ''Hashtag'' ''Count'' = Inr ([NaN, SVal ''#a''], [IVal 7, IVal 3])
   \<and> normalize sample_lib nan_sheet =
       Inr [\<lparr>idx = 0, Hashtag = ''nan'', Count = 7\<rparr>, \<lparr>idx = 1, Hashtag = ''#a'', Count = 3\<rparr>]
   \<and> nan_str sample_lib = Some ''nan''
   \<and> clean_counts sample_lib [IVal 7, IVal 3] = Inr [7, 3]
   \<and> (''nan'', 7) \<in> set (values_of
        [\<lparr>idx = 0, Hashtag = ''nan'', Count = 7\<rparr>, \<lparr>idx = 1, Hashtag = ''#a'', Count = 3\<rparr>])"
proof -
  note a = argsort_ok_sample and b = find_columns_nan and c = select2_nan
  have d: "normalize sample_lib nan_sheet =
       Inr [\<lparr>idx = 0, Hashtag = ''nan'', Count = 7\<rparr>, \<lparr>idx = 1, Hashtag = ''#a'', Count = 3\<rparr>]"
    by code_simp
  have e: "nan_str sample_lib = Some ''nan''" by (simp add: sample_lib_simps)
  have f: "clean_counts sample_lib [IVal 7, IVal 3] = Inr [7, 3]" by code_simp
  from missing_label [OF a b c _ _ _ d, of 0] e f
  have g: "(''nan'', 7) \<in> set (values_of
        [\<lparr>idx = 0, Hashtag = ''nan'', Count = 7\<rparr>, \<lparr>idx = 1, Hashtag = ''#a'', Count = 3\<rparr>])"
    by auto
  from a b c d e f g show ?thesis by (intro conjI)
qed

text \<open>
  Claim C10 as stated fails with pandas 3: the missing label stays missing, and the
  filter drops the row, which has the index 0 and the count 7.
\<close>

theorem missing_label_counterexample:
  "filtered pandas3_lib nan_sheet = Inr [\<lparr>idx = 1, Hashtag = ''#a'', Count = 3\<rparr>]
   \<and> normalize pandas3_lib nan_sheet = Inr [\<lparr>idx = 0, Hashtag = ''#a'', Count = 3\<rparr>]"
proof -
  have a: "filtered pandas3_lib nan_sheet = Inr [\<lparr>idx = 1, Hashtag = ''#a'', Count = 3\<rparr>]"
    by code_simp
  have b: "normalize pandas3_lib nan_sheet = Inr [\<lparr>idx = 0, Hashtag = ''#a'', Count = 3\<rparr>]"
    by code_simp
  from a b show ?thesis by (intro conjI)
qed

end
